theory Spec2Isabelle
  imports Main "HOL-Library.Word" "HOL-Library.Log_Nat" "HOL-Library.Sublist"
begin

unbundle bit_operations_syntax

section \<open>The HEIC fallback decoder of \<open>app.js\<close>\<close>

text \<open>
  The development embeds the container parser, the item locator, the codec descriptor,
  the bitstream reformatter, the decode callbacks and the tier chain of \<open>app.js\<close>.

  A \<open>Uint8Array\<close> is a list of bytes. A read beyond its end yields \<open>undefined\<close>
  in JavaScript; every bitwise operator turns \<open>undefined\<close> into 0, and so does
  \<open>String.fromCharCode\<close>. Where \<open>undefined\<close> is compared or printed instead, the
  read is an \<open>option\<close>.

  JavaScript numbers are doubles, which hold every natural number up to \<open>2 ^ 53\<close>
  exactly. Positions in a buffer are natural numbers here, and sums of positions are
  exact: a typed array has fewer than \<open>2 ^ 53\<close> elements. A value read from an 8-byte
  field can be larger; \<open>js_number\<close> rounds it as the double arithmetic does. A sum
  with such a value that reaches \<open>2 ^ 53\<close> is rounded in JavaScript to a number that
  is \<open>2 ^ 53\<close> or more, so its comparison with a position has the outcome that the
  exact sum has here.
\<close>

subsection \<open>Bytes and numbers\<close>

type_synonym byte = "8 word"
type_synonym bytes = "byte list"

definition byte_at :: "bytes \<Rightarrow> nat \<Rightarrow> byte option" where
  \<comment> \<open>\<open>d[p]\<close>; \<open>None\<close> is \<open>undefined\<close>\<close>
  "byte_at d p = (if p < length d then Some (d ! p) else None)"

definition int32_of :: "byte option \<Rightarrow> 32 word" where
  \<comment> \<open>the operand conversion of the bitwise operators: \<open>undefined\<close> becomes 0\<close>
  "int32_of b = (case b of None \<Rightarrow> 0 | Some x \<Rightarrow> ucast x)"

definition js_number :: "nat \<Rightarrow> nat" where
  \<comment> \<open>the double nearest to a natural number, ties to the even significand\<close>
  "js_number n =
     (if n < 2 ^ 53 then n
      else let k = floorlog 2 n - 53; q = n div 2 ^ k; r = n mod 2 ^ k
           in if 2 * r < 2 ^ k \<or> (2 * r = 2 ^ k \<and> even q) then q * 2 ^ k
              else (q + 1) * 2 ^ k)"

definition js_add :: "nat \<Rightarrow> nat \<Rightarrow> nat" where
  \<comment> \<open>\<open>a + b\<close> on doubles holding natural numbers\<close>
  "js_add a b = js_number (a + b)"

text \<open>
  \<open>function r32(d,p){return((d[p]<<24)|(d[p+1]<<16)|(d[p+2]<<8)|d[p+3])>>>0;}
  function r16(d,p){return(d[p]<<8)|d[p+1];}
  function r64(d,p){return r32(d,p)*4294967296+r32(d,p+4);}
  function fcc(d,p){return String.fromCharCode(d[p],d[p+1],d[p+2],d[p+3]);}\<close>

  The shifts and the bitwise or work on 32-bit integers; \<open>>>>0\<close> reads the result as
  unsigned. The result of \<open>r16\<close> is below \<open>2 ^ 16\<close>, so its sign bit is clear.
\<close>

definition r32 :: "bytes \<Rightarrow> nat \<Rightarrow> nat" where
  "r32 d p =
     unat (push_bit 24 (int32_of (byte_at d p)) OR push_bit 16 (int32_of (byte_at d (p + 1)))
           OR push_bit 8 (int32_of (byte_at d (p + 2))) OR int32_of (byte_at d (p + 3)))"

definition r16 :: "bytes \<Rightarrow> nat \<Rightarrow> nat" where
  "r16 d p = unat (push_bit 8 (int32_of (byte_at d p)) OR int32_of (byte_at d (p + 1)))"

definition r64 :: "bytes \<Rightarrow> nat \<Rightarrow> nat" where
  "r64 d p = js_number (r32 d p * 4294967296 + r32 d (p + 4))"

definition char_code :: "byte option \<Rightarrow> char" where
  \<comment> \<open>one argument of \<open>String.fromCharCode\<close>: \<open>undefined\<close> becomes the code 0\<close>
  "char_code b = (case b of None \<Rightarrow> char_of (0::nat) | Some x \<Rightarrow> char_of (unat x))"

definition fcc :: "bytes \<Rightarrow> nat \<Rightarrow> string" where
  "fcc d p = [char_code (byte_at d p), char_code (byte_at d (p + 1)),
              char_code (byte_at d (p + 2)), char_code (byte_at d (p + 3))]"

definition slice :: "'a list \<Rightarrow> nat \<Rightarrow> nat \<Rightarrow> 'a list" where
  \<comment> \<open>\<open>xs.slice(a, b)\<close> for \<open>0 \<le> a\<close> and \<open>0 \<le> b\<close>: both ends are clamped to the length\<close>
  "slice xs a b = take (b - a) (drop a xs)"

subsection \<open>The codec identifier\<close>

text \<open>
  \<open>const ps=(hvcC[1]>>6)&0x3,tier=(hvcC[1]>>5)&0x1,pidc=hvcC[1]&0x1f,lvl=hvcC[12];\<close>
  and the template literal that builds the codec string. \<open>lvl\<close> is not passed through
  a bitwise operator, so a short \<open>hvcC\<close> prints it as \<open>undefined\<close>.
\<close>

definition digit_char :: "nat \<Rightarrow> char" where
  "digit_char n = ''0123456789'' ! n"

fun string_of_nat :: "nat \<Rightarrow> string" where
  "string_of_nat n =
     (if n < 10 then [digit_char n] else string_of_nat (n div 10) @ [digit_char (n mod 10)])"

declare string_of_nat.simps [simp del]

definition string_of_number :: "nat option \<Rightarrow> string" where
  \<comment> \<open>\<open>`${x}`\<close> for a natural number or \<open>undefined\<close>\<close>
  "string_of_number x = (case x of None \<Rightarrow> ''undefined'' | Some n \<Rightarrow> string_of_nat n)"

definition profile_space_letter :: "nat \<Rightarrow> string" where
  \<comment> \<open>\<open>`${['','A','B','C'][ps]}`\<close>\<close>
  "profile_space_letter ps =
     (if ps < 4 then ['''', ''A'', ''B'', ''C''] ! ps else ''undefined'')"

definition codec :: "nat \<Rightarrow> nat \<Rightarrow> nat \<Rightarrow> nat option \<Rightarrow> string" where
  "codec ps tier pidc lvl =
     ''hvc1.'' @ profile_space_letter ps @ string_of_nat pidc @ ''.4.''
       @ (if tier \<noteq> 0 then ''H'' else ''L'') @ string_of_number lvl @ ''.B0''"

definition hvcC_ps :: "bytes \<Rightarrow> nat" where
  "hvcC_ps hvcC = unat (drop_bit 6 (int32_of (byte_at hvcC 1)) AND 3)"

definition hvcC_tier :: "bytes \<Rightarrow> nat" where
  "hvcC_tier hvcC = unat (drop_bit 5 (int32_of (byte_at hvcC 1)) AND 1)"

definition hvcC_pidc :: "bytes \<Rightarrow> nat" where
  "hvcC_pidc hvcC = unat (int32_of (byte_at hvcC 1) AND 31)"

definition hvcC_lvl :: "bytes \<Rightarrow> nat option" where
  "hvcC_lvl hvcC = map_option unat (byte_at hvcC 12)"

definition hvcC_codec :: "bytes \<Rightarrow> string" where
  "hvcC_codec hvcC = codec (hvcC_ps hvcC) (hvcC_tier hvcC) (hvcC_pidc hvcC) (hvcC_lvl hvcC)"

subsection \<open>The box parser\<close>

text \<open>
  \<open>function parseBoxes(d,s,e){const l=[];let p=s;while(p+8<=e){let sz=r32(d,p),hdr=8;
  const t=fcc(d,p+4);if(sz===1){sz=r64(d,p+8);hdr=16;}if(sz===0)sz=e-p;
  if(sz<hdr||p+sz>e)break;l.push({type:t,s:p,e:p+sz,d:p+hdr});p+=sz;}return l;}\<close>

  The fields \<open>type\<close>, \<open>s\<close>, \<open>e\<close> and \<open>d\<close> of a pushed object are the fields
  \<open>box_type\<close>, \<open>box_s\<close>, \<open>box_e\<close> and \<open>box_d\<close> of the record. \<open>box_hdr\<close> and
  \<open>box_sz\<close> are the values of \<open>hdr\<close> and \<open>sz\<close> when the loop body reaches its test.
\<close>

record box =
  box_type :: string
  box_s :: nat
  box_e :: nat
  box_d :: nat

definition box_hdr :: "bytes \<Rightarrow> nat \<Rightarrow> nat" where
  "box_hdr d p = (if r32 d p = 1 then 16 else 8)"

definition box_sz :: "bytes \<Rightarrow> nat \<Rightarrow> nat \<Rightarrow> nat" where
  "box_sz d p e =
     (let sz = (if r32 d p = 1 then r64 d (p + 8) else r32 d p)
      in if sz = 0 then e - p else sz)"

function parseBoxes_loop :: "bytes \<Rightarrow> nat \<Rightarrow> nat \<Rightarrow> box list \<Rightarrow> box list" where
  "parseBoxes_loop d e p l =
     (if p + 8 \<le> e then
        if box_sz d p e < box_hdr d p \<or> p + box_sz d p e > e then l
        else parseBoxes_loop d e (p + box_sz d p e)
               (l @ [\<lparr>box_type = fcc d (p + 4), box_s = p, box_e = p + box_sz d p e,
                      box_d = p + box_hdr d p\<rparr>])
      else l)"
  by pat_completeness auto
termination
  by (relation "measure (\<lambda>(d, e, p, l). e - p)") (auto simp: box_hdr_def split: if_splits)

declare parseBoxes_loop.simps [simp del]

definition parseBoxes :: "bytes \<Rightarrow> nat \<Rightarrow> nat \<Rightarrow> box list" where
  "parseBoxes d s e = parseBoxes_loop d e s []"

definition findBox :: "bytes \<Rightarrow> nat \<Rightarrow> nat \<Rightarrow> string \<Rightarrow> box option" where
  "findBox d s e t = find (\<lambda>b. box_type b = t) (parseBoxes d s e)"

text \<open>
  The same loop with a bound on the number of times its body runs: \<open>None\<close> when the
  bound is reached before the loop has left.
\<close>

fun parseBoxes_fuel :: "nat \<Rightarrow> bytes \<Rightarrow> nat \<Rightarrow> nat \<Rightarrow> box list \<Rightarrow> box list option" where
  "parseBoxes_fuel 0 d e p l = None"
| "parseBoxes_fuel (Suc n) d e p l =
     (if p + 8 \<le> e then
        if box_sz d p e < box_hdr d p \<or> p + box_sz d p e > e then Some l
        else parseBoxes_fuel n d e (p + box_sz d p e)
               (l @ [\<lparr>box_type = fcc d (p + 4), box_s = p, box_e = p + box_sz d p e,
                      box_d = p + box_hdr d p\<rparr>])
      else Some l)"

text \<open>
  A box sequence in the scan range that ends at \<open>e\<close>: boxes with the declared sizes
  \<open>szs\<close> lie one after the other from \<open>p\<close> and end exactly at \<open>q\<close>, and each
  declared size is at least the header length of its box. The declared size of a box is
  the 32-bit size field, the 64-bit field that follows the type when the size field is 1,
  and the rest of the scan range when the size is 0.
\<close>

fun box_seq :: "bytes \<Rightarrow> nat \<Rightarrow> nat \<Rightarrow> nat \<Rightarrow> nat list \<Rightarrow> bool" where
  "box_seq d e p q [] = (p = q)"
| "box_seq d e p q (sz # szs) =
     (box_sz d p e = sz \<and> box_hdr d p \<le> sz \<and> box_seq d e (p + sz) q szs)"

text \<open>The boxes of such a sequence, from their sizes.\<close>

fun seq_boxes :: "bytes \<Rightarrow> nat \<Rightarrow> nat list \<Rightarrow> box list" where
  "seq_boxes d p [] = []"
| "seq_boxes d p (sz # szs) =
     \<lparr>box_type = fcc d (p + 4), box_s = p, box_e = p + sz, box_d = p + box_hdr d p\<rparr>
       # seq_boxes d (p + sz) szs"

text \<open>
  Boxes tile the range from \<open>p\<close> to \<open>e\<close>: the first starts at \<open>p\<close>, each next one
  starts where the one before ends, the last ends at \<open>e\<close>, and none is empty.
\<close>

fun tiles :: "nat \<Rightarrow> nat \<Rightarrow> box list \<Rightarrow> bool" where
  "tiles p e [] = (p = e)"
| "tiles p e (b # bs) = (box_s b = p \<and> p < box_e b \<and> tiles (box_e b) e bs)"

subsection \<open>The bitstream reformatter\<close>

text \<open>
  \<open>const naluLenSize=(hvcC[21]&0x3)+1,SC=new Uint8Array([0,0,0,1]),parts=[];\<close>
\<close>

definition naluLenSize :: "bytes \<Rightarrow> nat" where
  "naluLenSize hvcC = unat (int32_of (byte_at hvcC 21) AND 3) + 1"

definition SC :: bytes where
  "SC = [0, 0, 0, 1]"

text \<open>
  \<open>let hp=22,na=hvcC[hp++];
  for(let a=0;a<na;a++){hp++;const cnt=(hvcC[hp]<<8)|hvcC[hp+1];hp+=2;
    for(let n=0;n<cnt;n++){const nl=(hvcC[hp]<<8)|hvcC[hp+1];hp+=2;
      parts.push(SC,hvcC.slice(hp,hp+nl));hp+=nl;}}\<close>

  The state of both loops is \<open>hp\<close> and \<open>parts\<close>. With \<open>na\<close> undefined the test
  \<open>a<na\<close> is false and the outer loop does not run.
\<close>

fun ps_nal_loop :: "bytes \<Rightarrow> nat \<Rightarrow> nat \<times> bytes list \<Rightarrow> nat \<times> bytes list" where
  "ps_nal_loop hvcC 0 (hp, parts) = (hp, parts)"
| "ps_nal_loop hvcC (Suc n) (hp, parts) =
     ps_nal_loop hvcC n
       (hp + 2 + r16 hvcC hp,
        parts @ [SC, slice hvcC (hp + 2) (hp + 2 + r16 hvcC hp)])"

fun ps_array_loop :: "bytes \<Rightarrow> nat \<Rightarrow> nat \<times> bytes list \<Rightarrow> nat \<times> bytes list" where
  "ps_array_loop hvcC 0 (hp, parts) = (hp, parts)"
| "ps_array_loop hvcC (Suc a) (hp, parts) =
     ps_array_loop hvcC a (ps_nal_loop hvcC (r16 hvcC (hp + 1)) (hp + 3, parts))"

definition hvcC_na :: "bytes \<Rightarrow> nat" where
  "hvcC_na hvcC = (case byte_at hvcC 22 of None \<Rightarrow> 0 | Some x \<Rightarrow> unat x)"

definition ps_parts :: "bytes \<Rightarrow> bytes list" where
  "ps_parts hvcC = snd (ps_array_loop hvcC (hvcC_na hvcC) (23, []))"

text \<open>
  \<open>let ri=0;while(ri+naluLenSize<=raw.length){let nl=0;
    for(let b=0;b<naluLenSize;b++)nl=(nl<<8)|raw[ri+b];ri+=naluLenSize;
    if(nl<=0||ri+nl>raw.length)break;parts.push(SC,raw.slice(ri,ri+nl));ri+=nl;}\<close>

  \<open>nl\<close> is built by 32-bit operators, so the test \<open>nl<=0\<close> reads it as a signed
  32-bit number.
\<close>

definition nal_len :: "bytes \<Rightarrow> nat \<Rightarrow> nat \<Rightarrow> int" where
  "nal_len raw ri n =
     sint (fold (\<lambda>b nl. push_bit 8 nl OR int32_of (byte_at raw (ri + b))) [0..<n] (0 :: 32 word))"

function chunk_loop :: "bytes \<Rightarrow> nat \<Rightarrow> nat \<Rightarrow> bytes list \<Rightarrow> bytes list" where
  "chunk_loop raw n ri parts =
     (if ri + n \<le> length raw then
        if nal_len raw ri n \<le> 0 \<or> int (ri + n) + nal_len raw ri n > int (length raw) then parts
        else chunk_loop raw n (ri + n + nat (nal_len raw ri n))
               (parts @ [SC, slice raw (ri + n) (ri + n + nat (nal_len raw ri n))])
      else parts)"
  by pat_completeness auto
termination
  by (relation "measure (\<lambda>(raw, n, ri, parts). length raw - ri)") auto

declare chunk_loop.simps [simp del]

text \<open>
  \<open>const tot=parts.reduce((n,p)=>n+p.length,0),annexB=new Uint8Array(tot);let off=0;
  for(const part of parts){annexB.set(part,off);off+=part.length;}\<close>

  \<open>annexB.set(part,off)\<close> raises a RangeError when the part does not fit at \<open>off\<close>;
  \<open>None\<close> is that error.
\<close>

definition typed_array_set :: "bytes \<Rightarrow> bytes \<Rightarrow> nat \<Rightarrow> bytes option" where
  "typed_array_set buf part off =
     (if off + length part \<le> length buf
      then Some (take off buf @ part @ drop (off + length part) buf) else None)"

fun copy_parts :: "bytes list \<Rightarrow> nat \<Rightarrow> bytes \<Rightarrow> bytes option" where
  "copy_parts [] off buf = Some buf"
| "copy_parts (part # ps) off buf =
     (case typed_array_set buf part off of
        None \<Rightarrow> None
      | Some buf' \<Rightarrow> copy_parts ps (off + length part) buf')"

definition annexB :: "bytes list \<Rightarrow> bytes option" where
  "annexB parts = copy_parts parts 0 (replicate (fold (\<lambda>p n. n + length p) parts 0) 0)"

text \<open>
  The reformatter from the parts that the parameter-set loops have pushed, and the whole
  of it from \<open>hvcC\<close> and the chunk \<open>raw\<close>.
\<close>

definition reformat :: "bytes list \<Rightarrow> bytes \<Rightarrow> nat \<Rightarrow> bytes option" where
  "reformat parts raw n = annexB (chunk_loop raw n 0 parts)"

definition hvcC_annexB :: "bytes \<Rightarrow> bytes \<Rightarrow> bytes option" where
  "hvcC_annexB hvcC raw = reformat (ps_parts hvcC) raw (naluLenSize hvcC)"

text \<open>
  The reformatter in the words of its specification. The parameter-set NALs of \<open>hvcC\<close>:
  byte 22 counts the arrays; each array has a type byte, a 16-bit NAL count, and for
  each NAL a 16-bit length and that many bytes.
\<close>

fun array_nals :: "bytes \<Rightarrow> nat \<Rightarrow> nat \<Rightarrow> bytes list \<times> nat" where
  "array_nals hvcC 0 hp = ([], hp)"
| "array_nals hvcC (Suc n) hp =
     (let nl = r16 hvcC hp; (nals, hp') = array_nals hvcC n (hp + 2 + nl)
      in (slice hvcC (hp + 2) (hp + 2 + nl) # nals, hp'))"

fun arrays_nals :: "bytes \<Rightarrow> nat \<Rightarrow> nat \<Rightarrow> bytes list" where
  "arrays_nals hvcC 0 hp = []"
| "arrays_nals hvcC (Suc a) hp =
     (let (nals, hp') = array_nals hvcC (r16 hvcC (hp + 1)) (hp + 3)
      in nals @ arrays_nals hvcC a hp')"

definition parameterSetNALs :: "bytes \<Rightarrow> bytes list" where
  "parameterSetNALs hvcC = arrays_nals hvcC (hvcC_na hvcC) 23"

text \<open>
  The NAL units of a chunk: the first \<open>n\<close> bytes are a big-endian length, that many bytes
  follow, and so on, until fewer than \<open>n\<close> bytes remain or the length is zero or invalid.
  A length is invalid when it is not a positive signed 32-bit number or when it exceeds
  the bytes that remain.
\<close>

definition be_nat :: "bytes \<Rightarrow> nat" where
  "be_nat bs = foldl (\<lambda>v b. v * 256 + unat b) 0 bs"

function chunk_nals :: "nat \<Rightarrow> bytes \<Rightarrow> bytes list" where
  "chunk_nals n raw =
     (if length raw < n then []
      else let nl = be_nat (take n raw); rest = drop n raw
           in if nl = 0 \<or> 2 ^ 31 \<le> nl \<or> length rest < nl then []
              else take nl rest # chunk_nals n (drop nl rest))"
  by pat_completeness auto
termination
  by (relation "measure (\<lambda>(n, raw). length raw)") auto

declare chunk_nals.simps [simp del]

definition start_coded :: "bytes list \<Rightarrow> bytes" where
  \<comment> \<open>each NAL after the start code \<open>00 00 00 01\<close>, one after the other\<close>
  "start_coded nals = concat (map (\<lambda>nal. [0, 0, 0, 1] @ nal) nals)"

definition pushed :: "bytes list \<Rightarrow> bytes list" where
  \<comment> \<open>the parts after \<open>parts.push(SC, nal)\<close> for each NAL in turn\<close>
  "pushed nals = concat (map (\<lambda>nal. [SC, nal]) nals)"

subsection \<open>The item locator\<close>

text \<open>
  The part of \<open>decodeHEICwithVideoDecoder\<close> that reads the \<open>iloc\<close> box.
  \<open>chunkOffset\<close> and \<open>chunkLength\<close> start at \<open>-1\<close>, so they are integers. The
  state of the loops is \<open>(ip, chunkOffset, chunkLength)\<close>.

  \<open>let x=0; if(sz===4){x=r32(data,ip);ip+=4;}else if(sz===8){x=r64(data,ip);ip+=8;}\<close>
  is written three times in the source, for \<open>base\<close>, \<open>off\<close> and \<open>elen\<close>;
  \<open>sized_field\<close> returns \<open>x\<close> and the new \<open>ip\<close>.
\<close>

definition sized_field :: "bytes \<Rightarrow> nat \<Rightarrow> nat \<Rightarrow> nat \<times> nat" where
  "sized_field d sz ip =
     (if sz = 4 then (r32 d ip, ip + 4) else if sz = 8 then (r64 d ip, ip + 8) else (0, ip))"

type_synonym iloc_state = "nat \<times> int \<times> int"

text \<open>
  \<open>for(let e=0;e<extCnt;e++){
    let off=0,elen=0;
    if(offSz===4){off=r32(data,ip);ip+=4;}else if(offSz===8){off=r64(data,ip);ip+=8;}
    if(lenSz===4){elen=r32(data,ip);ip+=4;}else if(lenSz===8){elen=r64(data,ip);ip+=8;}
    if(id===primaryId){chunkOffset=base+off;chunkLength=elen;}}\<close>

  \<open>is_primary\<close> is \<open>id===primaryId\<close>, which does not change in the loop.
\<close>

fun iloc_extents ::
  "bytes \<Rightarrow> nat \<Rightarrow> nat \<Rightarrow> bool \<Rightarrow> nat \<Rightarrow> nat \<Rightarrow> iloc_state \<Rightarrow> iloc_state" where
  "iloc_extents d offSz lenSz is_primary base 0 st = st"
| "iloc_extents d offSz lenSz is_primary base (Suc e) (ip, chunkOffset, chunkLength) =
     (let (off, ip1) = sized_field d offSz ip;
          (elen, ip2) = sized_field d lenSz ip1
      in iloc_extents d offSz lenSz is_primary base e
           (if is_primary then (ip2, int (js_add base off), int elen)
            else (ip2, chunkOffset, chunkLength)))"

text \<open>
  The loop over the items and its body:
  \<open>for(let i=0;i<itemCount;i++){
    const id=ilocVer<2?r16(data,ip):r32(data,ip); ip+=ilocVer<2?2:4;
    if(ilocVer===1||ilocVer===2)ip+=2; ip+=2;
    let base=0;
    if(baseSz===4){base=r32(data,ip);ip+=4;}else if(baseSz===8){base=r64(data,ip);ip+=8;}
    const extCnt=r16(data,ip);ip+=2;
    for(let e=0;e<extCnt;e++){...}}\<close>

  \<open>ilocVer\<close> is \<open>data[iloc.d]\<close>, which is undefined when the box has no payload;
  then \<open>ilocVer<2\<close>, \<open>ilocVer===1\<close> and \<open>ilocVer===2\<close> are all false.
\<close>

definition ver_lt2 :: "nat option \<Rightarrow> bool" where
  "ver_lt2 ilocVer = (case ilocVer of None \<Rightarrow> False | Some v \<Rightarrow> v < 2)"

definition iloc_item ::
  "bytes \<Rightarrow> nat option \<Rightarrow> nat \<Rightarrow> nat \<Rightarrow> nat \<Rightarrow> nat \<Rightarrow> iloc_state \<Rightarrow> iloc_state" where
  "iloc_item d ilocVer offSz lenSz baseSz primaryId st =
     (case st of (ip, chunkOffset, chunkLength) \<Rightarrow>
        let item_id = (if ver_lt2 ilocVer then r16 d ip else r32 d ip);
            ip1 = ip + (if ver_lt2 ilocVer then 2 else 4);
            ip2 = (if ilocVer = Some 1 \<or> ilocVer = Some 2 then ip1 + 2 else ip1) + 2;
            (base, ip3) = sized_field d baseSz ip2;
            extCnt = r16 d ip3
        in iloc_extents d offSz lenSz (item_id = primaryId) base extCnt
             (ip3 + 2, chunkOffset, chunkLength))"

fun iloc_items ::
  "bytes \<Rightarrow> nat option \<Rightarrow> nat \<Rightarrow> nat \<Rightarrow> nat \<Rightarrow> nat \<Rightarrow> nat \<Rightarrow> iloc_state \<Rightarrow> iloc_state" where
  "iloc_items d ilocVer offSz lenSz baseSz primaryId 0 st = st"
| "iloc_items d ilocVer offSz lenSz baseSz primaryId (Suc i) st =
     iloc_items d ilocVer offSz lenSz baseSz primaryId i
       (iloc_item d ilocVer offSz lenSz baseSz primaryId st)"

text \<open>
  The header of the box, from \<open>iloc.d\<close>:
  \<open>const ilocVer=data[iloc.d],fd=iloc.d+4;
  const offSz=(data[fd]>>4)&0xf,lenSz=data[fd]&0xf,baseSz=(data[fd+1]>>4)&0xf;
  const cntSz=ilocVer<2?2:4,itemCount=cntSz===2?r16(data,fd+2):r32(data,fd+2);
  let ip=fd+2+cntSz,chunkOffset=-1,chunkLength=-1;\<close>
\<close>

definition iloc_ver :: "bytes \<Rightarrow> nat \<Rightarrow> nat option" where
  "iloc_ver d iloc_d = map_option unat (byte_at d iloc_d)"

definition iloc_offSz :: "bytes \<Rightarrow> nat \<Rightarrow> nat" where
  "iloc_offSz d fd = unat (drop_bit 4 (int32_of (byte_at d fd)) AND 15)"

definition iloc_lenSz :: "bytes \<Rightarrow> nat \<Rightarrow> nat" where
  "iloc_lenSz d fd = unat (int32_of (byte_at d fd) AND 15)"

definition iloc_baseSz :: "bytes \<Rightarrow> nat \<Rightarrow> nat" where
  "iloc_baseSz d fd = unat (drop_bit 4 (int32_of (byte_at d (fd + 1))) AND 15)"

definition iloc_cntSz :: "nat option \<Rightarrow> nat" where
  "iloc_cntSz ilocVer = (if ver_lt2 ilocVer then 2 else 4)"

definition iloc_itemCount :: "bytes \<Rightarrow> nat option \<Rightarrow> nat \<Rightarrow> nat" where
  "iloc_itemCount d ilocVer fd = (if iloc_cntSz ilocVer = 2 then r16 d (fd + 2) else r32 d (fd + 2))"

text \<open>
  The errors that \<open>decodeHEICwithVideoDecoder\<close> throws while it parses, by their
  messages: \<open>No meta\<close>, \<open>No iloc\<close>, \<open>Primary item not found in iloc\<close>,
  \<open>No iprp\<close>, \<open>No ipco\<close> and \<open>No hvcC\<close>.
  \<open>if(chunkOffset<0) throw new Error('Primary item not found in iloc');\<close>
\<close>

datatype error =
  No_meta | No_iloc | Primary_item_not_found | No_iprp | No_ipco | No_hvcC

definition iloc_chunk :: "bytes \<Rightarrow> nat \<Rightarrow> nat \<Rightarrow> error + (int \<times> int)" where
  "iloc_chunk d iloc_d primaryId =
     (let ilocVer = iloc_ver d iloc_d; fd = iloc_d + 4;
          offSz = iloc_offSz d fd; lenSz = iloc_lenSz d fd; baseSz = iloc_baseSz d fd;
          itemCount = iloc_itemCount d ilocVer fd
      in case iloc_items d ilocVer offSz lenSz baseSz primaryId itemCount
                (fd + 2 + iloc_cntSz ilocVer, - 1, - 1) of
           (ip, chunkOffset, chunkLength) \<Rightarrow>
             if chunkOffset < 0 then Inl Primary_item_not_found
             else Inr (chunkOffset, chunkLength))"

text \<open>
  \<open>const pitm=findBox(data,mc,me,'pitm'),pitmVer=pitm?data[pitm.d]:0;
  const primaryId=pitm?(pitmVer===0?r16(data,pitm.d+4):r32(data,pitm.d+4)):1;\<close>
\<close>

definition primaryId_of :: "bytes \<Rightarrow> nat \<Rightarrow> nat \<Rightarrow> nat" where
  "primaryId_of d mc me =
     (case findBox d mc me ''pitm'' of
        None \<Rightarrow> 1
      | Some pitm \<Rightarrow>
          if byte_at d (box_d pitm) = Some 0 then r16 d (box_d pitm + 4)
          else r32 d (box_d pitm + 4))"

text \<open>
  The parsing part of \<open>decodeHEICwithVideoDecoder\<close>, up to the promise: the codec
  string, the width and height, the bytes of \<open>hvcC\<close> and the Annex-B buffer, or the
  error thrown. \<open>data.slice(chunkOffset,chunkOffset+chunkLength)\<close> has non-negative
  arguments once \<open>chunkOffset<0\<close> has been excluded.
\<close>

record decoder_input =
  di_codec :: string
  di_width :: nat
  di_height :: nat
  di_description :: bytes
  di_annexB :: "bytes option"

definition heic_decoder_input :: "bytes \<Rightarrow> error + decoder_input" where
  "heic_decoder_input data =
     (case find (\<lambda>b. box_type b = ''meta'') (parseBoxes data 0 (length data)) of
        None \<Rightarrow> Inl No_meta
      | Some meta \<Rightarrow>
     let mc = box_d meta + 4; me = box_e meta; primaryId = primaryId_of data mc me in
     case findBox data mc me ''iloc'' of
        None \<Rightarrow> Inl No_iloc
      | Some iloc \<Rightarrow>
     case iloc_chunk data (box_d iloc) primaryId of
        Inl err \<Rightarrow> Inl err
      | Inr (chunkOffset, chunkLength) \<Rightarrow>
     case findBox data mc me ''iprp'' of
        None \<Rightarrow> Inl No_iprp
      | Some iprp \<Rightarrow>
     case findBox data (box_d iprp) (box_e iprp) ''ipco'' of
        None \<Rightarrow> Inl No_ipco
      | Some ipco \<Rightarrow>
     case findBox data (box_d ipco) (box_e ipco) ''hvcC'' of
        None \<Rightarrow> Inl No_hvcC
      | Some hvcCBox \<Rightarrow>
     let hvcC = slice data (box_d hvcCBox) (box_e hvcCBox);
         ispe = findBox data (box_d ipco) (box_e ipco) ''ispe'';
         raw = slice data (nat chunkOffset) (nat (chunkOffset + chunkLength))
     in Inr \<lparr>di_codec = hvcC_codec hvcC,
              di_width = (case ispe of None \<Rightarrow> 1920 | Some b \<Rightarrow> r32 data (box_d b + 4)),
              di_height = (case ispe of None \<Rightarrow> 1080 | Some b \<Rightarrow> r32 data (box_d b + 8)),
              di_description = hvcC,
              di_annexB = hvcC_annexB hvcC raw\<rparr>)"

text \<open>
  The item entry in the words of its specification. \<open>be_read d p n\<close> is the number that
  the \<open>n\<close> bytes from position \<open>p\<close> hold in big-endian order, as a JavaScript number;
  a byte beyond the end of the buffer counts as 0. An entry is the item id (16 bits for a
  version below 2, else 32 bits), a 2-byte construction method for version 1 or 2, a
  2-byte data-reference index, the base offset in \<open>baseSz\<close> bytes, a 16-bit extent
  count, and for each extent an offset in \<open>offSz\<close> bytes and a length in \<open>lenSz\<close>
  bytes. The location of an extent is the base offset plus the extent offset, with the
  extent length. \<open>spec_entry\<close> returns the item id, the locations of the extents in
  their order, and the position behind the entry.
\<close>

definition byte_val :: "bytes \<Rightarrow> nat \<Rightarrow> nat" where
  "byte_val d p = (case byte_at d p of None \<Rightarrow> 0 | Some x \<Rightarrow> unat x)"

definition be_read :: "bytes \<Rightarrow> nat \<Rightarrow> nat \<Rightarrow> nat" where
  "be_read d p n = js_number (foldl (\<lambda>v i. v * 256 + byte_val d i) 0 [p..<p + n])"

fun spec_extents ::
  "bytes \<Rightarrow> nat \<Rightarrow> nat \<Rightarrow> nat \<Rightarrow> nat \<Rightarrow> nat \<Rightarrow> (nat \<times> nat) list \<times> nat" where
  "spec_extents d offSz lenSz base 0 ip = ([], ip)"
| "spec_extents d offSz lenSz base (Suc k) ip =
     (let (locs, ip') = spec_extents d offSz lenSz base k (ip + offSz + lenSz)
      in ((js_add base (be_read d ip offSz), be_read d (ip + offSz) lenSz) # locs, ip'))"

definition spec_entry ::
  "bytes \<Rightarrow> nat option \<Rightarrow> nat \<Rightarrow> nat \<Rightarrow> nat \<Rightarrow> nat \<Rightarrow> nat \<times> (nat \<times> nat) list \<times> nat" where
  "spec_entry d ilocVer offSz lenSz baseSz ip =
     (let id_size = (if ver_lt2 ilocVer then 2 else 4);
          item_id = be_read d ip id_size;
          method_size = (if ilocVer = Some 1 \<or> ilocVer = Some 2 then 2 else 0);
          base_at = ip + id_size + method_size + 2;
          base = be_read d base_at baseSz;
          extent_count = be_read d (base_at + baseSz) 2;
          (locs, ip') = spec_extents d offSz lenSz base extent_count (base_at + baseSz + 2)
      in (item_id, locs, ip'))"

fun spec_entries ::
  "bytes \<Rightarrow> nat option \<Rightarrow> nat \<Rightarrow> nat \<Rightarrow> nat \<Rightarrow> nat \<Rightarrow> nat \<Rightarrow> (nat \<times> (nat \<times> nat) list) list" where
  "spec_entries d ilocVer offSz lenSz baseSz 0 ip = []"
| "spec_entries d ilocVer offSz lenSz baseSz (Suc n) ip =
     (let (item_id, locs, ip') = spec_entry d ilocVer offSz lenSz baseSz ip
      in (item_id, locs) # spec_entries d ilocVer offSz lenSz baseSz n ip')"

text \<open>
  The number of bytes that the code reads for a field whose size nibble is \<open>sz\<close>: the
  source tests the nibble against 4 and 8 only.
\<close>

definition read_width :: "nat \<Rightarrow> nat" where
  "read_width sz = (if sz = 4 \<or> sz = 8 then sz else 0)"

text \<open>What an entry leaves in the state: the last location of an entry for the primary item.\<close>

definition retain :: "nat \<Rightarrow> nat \<times> (nat \<times> nat) list \<Rightarrow> int \<times> int \<Rightarrow> int \<times> int" where
  "retain primaryId entry chunk =
     (if fst entry = primaryId \<and> snd entry \<noteq> []
      then (int (fst (last (snd entry))), int (snd (last (snd entry)))) else chunk)"

text \<open>
  The \<open>iloc\<close> box in the words of its specification, from the start of its payload: a
  version byte and three flag bytes, one byte that packs \<open>offset_size\<close> (high nibble)
  and \<open>length_size\<close> (low nibble), one byte that packs \<open>base_offset_size\<close> (high
  nibble), an item count of 16 bits for a version below 2 and of 32 bits otherwise, and
  the entries, each read with the declared sizes.
\<close>

definition spec_version :: "bytes \<Rightarrow> nat \<Rightarrow> nat option" where
  "spec_version d iloc_d = (if iloc_d < length d then Some (byte_val d iloc_d) else None)"

definition spec_offset_size :: "bytes \<Rightarrow> nat \<Rightarrow> nat" where
  "spec_offset_size d iloc_d = byte_val d (iloc_d + 4) div 16"

definition spec_length_size :: "bytes \<Rightarrow> nat \<Rightarrow> nat" where
  "spec_length_size d iloc_d = byte_val d (iloc_d + 4) mod 16"

definition spec_base_offset_size :: "bytes \<Rightarrow> nat \<Rightarrow> nat" where
  "spec_base_offset_size d iloc_d = byte_val d (iloc_d + 5) div 16"

definition spec_iloc_entries :: "bytes \<Rightarrow> nat \<Rightarrow> (nat \<times> (nat \<times> nat) list) list" where
  "spec_iloc_entries d iloc_d =
     (let version = spec_version d iloc_d;
          count_size = (if ver_lt2 version then 2 else 4);
          item_count = be_read d (iloc_d + 6) count_size
      in spec_entries d version (spec_offset_size d iloc_d) (spec_length_size d iloc_d)
           (spec_base_offset_size d iloc_d) item_count (iloc_d + 6 + count_size))"

subsection \<open>The decode adapter\<close>

text \<open>
  The promise at the end of \<open>decodeHEICwithVideoDecoder\<close>:
  \<open>return new Promise((res,rej)=>{
    const canvas=document.createElement('canvas');canvas.width=width;canvas.height=height;
    const ctx=canvas.getContext('2d');let done=false;
    const dec=new VideoDecoder({
      output:frame=>{if(!done){done=true;ctx.drawImage(frame,0,0);frame.close();dec.close();
        res(canvas.toDataURL('image/jpeg',.88));}else frame.close();},
      error:e=>{if(!done){done=true;rej(e);}}});
    dec.configure({codec,description:...,codedWidth:width,codedHeight:height});
    dec.decode(new EncodedVideoChunk({type:'key',timestamp:0,data:annexB}));
    dec.flush().catch(e=>{if(!done){done=true;rej(e);}});
  });\<close>

  The executor runs first, with no \<open>try\<close>: when \<open>dec.configure\<close> or \<open>dec.decode\<close>
  throws (\<open>configure\<close> throws a TypeError for a coded width or height of 0, which
  come from the bytes of \<open>ispe\<close>), the executor is left, the promise is rejected with
  the exception, and \<open>done\<close> is still false. Afterwards the decoder calls back with an
  output frame, with an error, or by settling the promise of \<open>flush\<close>; the fulfilment of
  that promise has no handler. A call of \<open>res\<close> or \<open>rej\<close> settles the promise when
  it is not settled yet and does nothing otherwise. The state is the flag \<open>done\<close> (the
  field \<open>done_flag\<close>), the calls that the handlers have made, in their order, and the
  state of the promise.
\<close>

datatype ('f, 'e) callback =
  Output 'f | Error 'e | Flush_rejected 'e | Flush_fulfilled

datatype ('f, 'e) call =
  DrawImage 'f | Frame_close 'f | Dec_close | Res 'f | Rej 'e

datatype ('f, 'e) promise_state =
  Unsettled | Fulfilled 'f | Rejected 'e

record ('f, 'e) adapter =
  done_flag :: bool
  calls :: "('f, 'e) call list"
  promise :: "('f, 'e) promise_state"

definition settle :: "('f, 'e) promise_state \<Rightarrow> ('f, 'e) promise_state \<Rightarrow> ('f, 'e) promise_state" where
  "settle p v = (if p = Unsettled then v else p)"

definition executor :: "'e option \<Rightarrow> ('f, 'e) adapter" where
  \<comment> \<open>the state behind the executor; \<open>thrown\<close> is the exception it was left with, if any\<close>
  "executor thrown =
     \<lparr>done_flag = False, calls = [],
      promise = (case thrown of None \<Rightarrow> Unsettled | Some e \<Rightarrow> Rejected e)\<rparr>"

fun on_callback :: "('f, 'e) adapter \<Rightarrow> ('f, 'e) callback \<Rightarrow> ('f, 'e) adapter" where
  "on_callback a (Output frame) =
     (if \<not> done_flag a
      then \<lparr>done_flag = True,
            calls = calls a @ [DrawImage frame, Frame_close frame, Dec_close, Res frame],
            promise = settle (promise a) (Fulfilled frame)\<rparr>
      else a\<lparr>calls := calls a @ [Frame_close frame]\<rparr>)"
| "on_callback a (Error e) =
     (if \<not> done_flag a
      then \<lparr>done_flag = True, calls = calls a @ [Rej e], promise = settle (promise a) (Rejected e)\<rparr>
      else a)"
| "on_callback a (Flush_rejected e) =
     (if \<not> done_flag a
      then \<lparr>done_flag = True, calls = calls a @ [Rej e], promise = settle (promise a) (Rejected e)\<rparr>
      else a)"
| "on_callback a Flush_fulfilled = a"

definition decode_run :: "'e option \<Rightarrow> ('f, 'e) callback list \<Rightarrow> ('f, 'e) adapter" where
  "decode_run thrown cbs = foldl on_callback (executor thrown) cbs"

definition settles :: "('f, 'e) call list \<Rightarrow> nat" where
  \<comment> \<open>how many times the handlers call \<open>res\<close> or \<open>rej\<close>\<close>
  "settles cs = length (filter (\<lambda>c. case c of Res f \<Rightarrow> True | Rej e \<Rightarrow> True | _ \<Rightarrow> False) cs)"

definition first_calls :: "('f, 'e) callback \<Rightarrow> ('f, 'e) call list" where
  \<comment> \<open>what a callback does while \<open>done\<close> is false\<close>
  "first_calls cb =
     (case cb of
        Output frame \<Rightarrow> [DrawImage frame, Frame_close frame, Dec_close, Res frame]
      | Error e \<Rightarrow> [Rej e]
      | Flush_rejected e \<Rightarrow> [Rej e]
      | Flush_fulfilled \<Rightarrow> [])"

definition late_calls :: "('f, 'e) callback \<Rightarrow> ('f, 'e) call list" where
  \<comment> \<open>a callback that is discarded: a frame is released, nothing else happens\<close>
  "late_calls cb = (case cb of Output frame \<Rightarrow> [Frame_close frame] | _ \<Rightarrow> [])"

definition completes :: "('f, 'e) callback \<Rightarrow> bool" where
  \<comment> \<open>a callback that has a handler: an output, an error or a rejected flush\<close>
  "completes cb = (cb \<noteq> Flush_fulfilled)"

text \<open>
  The promise in the words of its specification: it is settled by the first of the
  exception of the executor and the callbacks that have a handler, an output fulfilling
  it and an error or a rejected flush rejecting it, and it is pending when there is none.
\<close>

definition settlement :: "('f, 'e) callback \<Rightarrow> ('f, 'e) promise_state" where
  "settlement cb =
     (case cb of
        Output frame \<Rightarrow> Fulfilled frame
      | Error e \<Rightarrow> Rejected e
      | Flush_rejected e \<Rightarrow> Rejected e
      | Flush_fulfilled \<Rightarrow> Unsettled)"

definition settled_by :: "'e option \<Rightarrow> ('f, 'e) callback list \<Rightarrow> ('f, 'e) promise_state" where
  "settled_by thrown cbs =
     (case thrown of
        Some e \<Rightarrow> Rejected e
      | None \<Rightarrow> (case filter completes cbs of [] \<Rightarrow> Unsettled | cb # _ \<Rightarrow> settlement cb))"

subsection \<open>The tier chain\<close>

text \<open>
  \<open>async function readImageToDataURL(file) {
    const name   = file.name || '';
    const mime   = file.type || '';
    const isHEIC = /\.(heic|heif)$/i.test(name) || mime === 'image/heic' || mime === 'image/heif';
    if (!isHEIC) {
      try { return bitmapToDataURL(await createImageBitmap(file)); } catch(_) {}
      return imgTagDecode(file);
    }
    try { return bitmapToDataURL(await createImageBitmap(file)); } catch(_) {}
    try { return await imgTagDecode(file); }                       catch(_) {}
    if (typeof VideoDecoder !== 'undefined') {
      try { return await decodeHEICwithVideoDecoder(file); } catch(e) { console.warn(...); }
    }
    throw new Error('HEIC_UNSUPPORTED');
  }\<close>

  What the host does is a parameter: the outcome of
  \<open>bitmapToDataURL(await createImageBitmap(file))\<close>, the event that the image element
  of \<open>imgTagDecode\<close> fires, whether \<open>VideoDecoder\<close> is defined, and the outcome of
  \<open>decodeHEICwithVideoDecoder(file)\<close>. An awaited promise returns a value, throws, or
  stays pending. The result is the list of the tiers that were started, in their order,
  and the outcome of the call. The regular expression matches a name that ends in
  \<open>.heic\<close> or \<open>.heif\<close> in any mix of upper and lower case.
\<close>

datatype 'a outcome = Returned 'a | Threw string | Pending

datatype img_event = Img_load string | Img_error | Img_none

datatype tier = NativeBitmapDecode | TagBasedDecode | HEVCManualDecode

record host =
  native_bitmap :: "string outcome"
  img_fires :: img_event
  VideoDecoder_defined :: bool
  hevc_decode :: "string outcome"

definition imgTagDecode :: "img_event \<Rightarrow> string outcome" where
  \<comment> \<open>\<open>img.onload\<close> resolves with the data URL, \<open>img.onerror\<close> rejects with \<open>new Error('img fail')\<close>\<close>
  "imgTagDecode ev =
     (case ev of Img_load url \<Rightarrow> Returned url | Img_error \<Rightarrow> Threw ''img fail'' | Img_none \<Rightarrow> Pending)"

definition lower :: "char \<Rightarrow> char" where
  "lower c = (if 65 \<le> (of_char c :: nat) \<and> (of_char c :: nat) \<le> 90
              then char_of ((of_char c :: nat) + 32) else c)"

definition ends_with_ci :: "string \<Rightarrow> string \<Rightarrow> bool" where
  \<comment> \<open>\<open>/suffix$/i.test(name)\<close> for a lower-case literal suffix\<close>
  "ends_with_ci sfx name = suffix sfx (map lower name)"

definition isHEIC :: "string \<Rightarrow> string \<Rightarrow> bool" where
  "isHEIC name mime =
     (ends_with_ci ''.heic'' name \<or> ends_with_ci ''.heif'' name
      \<or> mime = ''image/heic'' \<or> mime = ''image/heif'')"

definition readImageToDataURL :: "host \<Rightarrow> string \<Rightarrow> string \<Rightarrow> tier list \<times> string outcome" where
  "readImageToDataURL h name mime =
     (if \<not> isHEIC name mime then
        (case native_bitmap h of
           Threw _ \<Rightarrow> ([NativeBitmapDecode, TagBasedDecode], imgTagDecode (img_fires h))
         | r \<Rightarrow> ([NativeBitmapDecode], r))
      else
        (case native_bitmap h of
           Threw _ \<Rightarrow>
             (case imgTagDecode (img_fires h) of
                Threw _ \<Rightarrow>
                  (if VideoDecoder_defined h then
                     (case hevc_decode h of
                        Threw _ \<Rightarrow>
                          ([NativeBitmapDecode, TagBasedDecode, HEVCManualDecode],
                           Threw ''HEIC_UNSUPPORTED'')
                      | r \<Rightarrow> ([NativeBitmapDecode, TagBasedDecode, HEVCManualDecode], r))
                   else ([NativeBitmapDecode, TagBasedDecode], Threw ''HEIC_UNSUPPORTED''))
              | r \<Rightarrow> ([NativeBitmapDecode, TagBasedDecode], r))
         | r \<Rightarrow> ([NativeBitmapDecode], r)))"

text \<open>
  The chain in the words of its specification: the applicable tiers run in their order,
  each one after the failure of the one before, up to the first that does not fail.
\<close>

definition tier_outcome :: "host \<Rightarrow> tier \<Rightarrow> string outcome" where
  "tier_outcome h t =
     (case t of
        NativeBitmapDecode \<Rightarrow> native_bitmap h
      | TagBasedDecode \<Rightarrow> imgTagDecode (img_fires h)
      | HEVCManualDecode \<Rightarrow> hevc_decode h)"

definition failed :: "'a outcome \<Rightarrow> bool" where
  "failed r = (case r of Threw _ \<Rightarrow> True | _ \<Rightarrow> False)"

definition applicable :: "host \<Rightarrow> string \<Rightarrow> string \<Rightarrow> tier list" where
  "applicable h name mime =
     (if isHEIC name mime \<and> VideoDecoder_defined h
      then [NativeBitmapDecode, TagBasedDecode, HEVCManualDecode]
      else [NativeBitmapDecode, TagBasedDecode])"

fun started :: "host \<Rightarrow> tier list \<Rightarrow> tier list" where
  "started h [] = []"
| "started h (t # ts) = (if failed (tier_outcome h t) then t # started h ts else [t])"

subsection \<open>Example buffers\<close>

text \<open>
  Three boxes in 40 bytes: \<open>free\<close> of size 8, \<open>mdat\<close> in the 64-bit size form with
  size 24, and \<open>meta\<close> in the size-0 form, which runs to the end.
\<close>

definition three_boxes :: bytes where
  "three_boxes =
     [0,0,0,8, 102,114,101,101,
      0,0,0,1, 109,100,97,116, 0,0,0,0,0,0,0,24, 1,2,3,4,5,6,7,8,
      0,0,0,0, 109,101,116,97]"

text \<open>
  A \<open>free\<close> box of size 8 followed by an \<open>mdat\<close> box that declares 100 bytes, of
  which only the header and 4 bytes are there.
\<close>

definition truncated_boxes :: bytes where
  "truncated_boxes = [0,0,0,8, 102,114,101,101, 0,0,0,100, 109,100,97,116, 1,2,3,4]"


text \<open>
  Two parameter-set NALs of 5 and 7 bytes, and a chunk that holds one NAL of 10 bytes
  behind a 4-byte length.
\<close>

definition nal5 :: bytes where
  "nal5 = [64, 1, 12, 1, 255]"

definition nal7 :: bytes where
  "nal7 = [66, 1, 1, 1, 96, 0, 0]"

definition chunk10 :: bytes where
  "chunk10 = [0, 0, 0, 10, 38, 1, 175, 8, 64, 127, 200, 17, 3, 9]"

text \<open>
  The payload of an \<open>iloc\<close> box of version 0 with 4-byte offsets, lengths and base
  offsets: one item with id 1, base offset 256 and two extents, (16, 32) and (64, 128).
\<close>

definition iloc_444 :: bytes where
  "iloc_444 =
     [0, 0,0,0, 68, 64, 0,1,
      0,1, 0,0, 0,0,1,0, 0,2,
      0,0,0,16, 0,0,0,32,
      0,0,0,64, 0,0,0,128]"

text \<open>
  The payload of an \<open>iloc\<close> box of version 0 with 4-byte offsets, lengths and base
  offsets, with three items: id 2 with the base offset 1000 and the extent (100, 10),
  id 1 with the base offset 256 and the extents (16, 32) and (64, 128), and id 3 with
  the base offset 0 and the extent (400, 40).
\<close>

definition iloc_three :: bytes where
  "iloc_three =
     [0, 0,0,0, 68, 64, 0,3,
      0,2, 0,0, 0,0,3,232, 0,1, 0,0,0,100, 0,0,0,10,
      0,1, 0,0, 0,0,1,0, 0,2, 0,0,0,16, 0,0,0,32, 0,0,0,64, 0,0,0,128,
      0,3, 0,0, 0,0,0,0, 0,1, 0,0,1,144, 0,0,0,40]"

text \<open>
  The payload of an \<open>iloc\<close> box of version 0 with 2-byte offsets and lengths and no
  base offset: one item with id 1 and two extents, (16, 32) and (64, 128).
\<close>

definition iloc_222 :: bytes where
  "iloc_222 =
     [0, 0,0,0, 34, 0, 0,1,
      0,1, 0,0, 0,2,
      0,16, 0,32,
      0,64, 0,128]"

text \<open>
  The payload of an \<open>iloc\<close> box of version 0 with 2-byte offsets and lengths and no
  base offset: one item with id 1 and one extent, (16, 32).
\<close>

definition iloc_220 :: bytes where
  "iloc_220 =
     [0, 0,0,0, 34, 0, 0,1,
      0,1, 0,0, 0,1,
      0,16, 0,32]"

text \<open>
  A host without \<open>VideoDecoder\<close> in which the first two tiers fail, and a host with
  \<open>VideoDecoder\<close> in which the third tier returns a data URL.
\<close>

definition failing_host :: host where
  "failing_host =
     \<lparr>native_bitmap = Threw ''InvalidStateError'', img_fires = Img_error,
      VideoDecoder_defined = False, hevc_decode = Pending\<rparr>"

definition decoding_host :: host where
  "decoding_host =
     \<lparr>native_bitmap = Threw ''InvalidStateError'', img_fires = Img_error,
      VideoDecoder_defined = True, hevc_decode = Returned ''data:image/jpeg;base64,AA''\<rparr>"

section \<open>Properties\<close>

subsection \<open>JavaScript numbers\<close>

lemma js_number_exact: "n < 2 ^ 53 \<Longrightarrow> js_number n = n"
  by (simp add: js_number_def)

lemma js_number_large:
  assumes "2 ^ 53 \<le> n"
  shows "2 ^ 53 \<le> js_number n"
proof -
  define k where "k = floorlog 2 n - 53"
  define q where "q = n div 2 ^ k"
  have n0: "0 < n" using assms by (simp add: order_less_le_trans [of 0 "2 ^ 53"])
  have "Suc 53 \<le> floorlog 2 n"
    using assms by (intro floorlog_ge_SucI) simp_all
  then have fl: "floorlog 2 n = k + 53" and k1: "1 \<le> k" unfolding k_def by simp_all
  have "2 ^ (floorlog 2 n - 1) \<le> n"
    using floorlog_bounds [of n 2] n0 by simp
  then have low: "2 ^ 52 * 2 ^ k \<le> n"
    unfolding fl by (simp add: power_add mult.commute)
  have q52: "2 ^ 52 \<le> q"
  proof -
    have "(2 ^ 52 * 2 ^ k) div 2 ^ k \<le> n div 2 ^ k"
      using low by (rule div_le_mono)
    then show ?thesis unfolding q_def by simp
  qed
  have "(2::nat) ^ 1 \<le> 2 ^ k"
    using k1 by (intro power_increasing) simp_all
  then have "2 ^ 52 * 2 \<le> q * 2 ^ k"
    using q52 by (intro mult_le_mono) simp_all
  then have a: "2 ^ 53 \<le> q * 2 ^ k" by simp
  then have b: "2 ^ 53 \<le> (q + 1) * 2 ^ k"
    by (simp add: add_mult_distrib trans_le_add1)
  show ?thesis
    using assms a b unfolding js_number_def Let_def k_def [symmetric] q_def [symmetric]
    by simp
qed

subsection \<open>The codec identifier\<close>

text \<open>
  C1, as the code has it: for profile_space 0, tier_flag 0, profile_idc 1 and level_idc 93
  the codec string is \<open>hvc1.1.4.L93.B0\<close> (profile space 0 has the empty letter), and for
  profile_space 2, tier_flag 1, profile_idc 2 and level_idc 120 it is
  \<open>hvc1.B2.4.H120.B0\<close> (profile space 2 has the letter B).
\<close>

theorem codec_examples:
  "codec 0 0 1 (Some 93) = ''hvc1.1.4.L93.B0'' \<and> codec 2 1 2 (Some 120) = ''hvc1.B2.4.H120.B0''"
  by code_simp

text \<open>
  C1, as the claim states it, fails: neither of the claimed strings,
  \<open>hvc1.A1.4.L93.B0\<close> and \<open>hvc1.C2.4.H120.B0\<close>, is what the builder returns.
\<close>

theorem codec_claimed_strings_counterexample:
  "codec 0 0 1 (Some 93) \<noteq> ''hvc1.A1.4.L93.B0'' \<and> codec 2 1 2 (Some 120) \<noteq> ''hvc1.C2.4.H120.B0''"
  by code_simp

subsection \<open>The box parser\<close>

lemmas box_eval = parseBoxes_def parseBoxes_loop.simps box_sz_def box_hdr_def r32_def r64_def
  byte_at_def int32_of_def fcc_def char_code_def js_number_def char_of_def bit_Suc_0_iff

lemma box_hdr_ge8: "8 \<le> box_hdr d p"
  by (simp add: box_hdr_def)

lemma parseBoxes_loop_accept:
  assumes "p + 8 \<le> e" and "\<not> box_sz d p e < box_hdr d p" and "p + box_sz d p e \<le> e"
  shows "parseBoxes_loop d e p l =
         parseBoxes_loop d e (p + box_sz d p e)
           (l @ [\<lparr>box_type = fcc d (p + 4), box_s = p, box_e = p + box_sz d p e,
                  box_d = p + box_hdr d p\<rparr>])"
  using assms by (subst parseBoxes_loop.simps) simp

lemma parseBoxes_loop_exit:
  assumes "\<not> (p + 8 \<le> e \<and> \<not> box_sz d p e < box_hdr d p \<and> p + box_sz d p e \<le> e)"
  shows "parseBoxes_loop d e p l = l"
  using assms by (subst parseBoxes_loop.simps) auto

lemma box_seq_le: "box_seq d e p q szs \<Longrightarrow> p \<le> q"
proof (induction szs arbitrary: p)
  case Nil
  then show ?case by simp
next
  case (Cons sz szs)
  then have "p + sz \<le> q" by simp
  then show ?case by simp
qed

lemma parseBoxes_loop_seq:
  "box_seq d e p q szs \<Longrightarrow> q \<le> e \<Longrightarrow>
   parseBoxes_loop d e p l = parseBoxes_loop d e q (l @ seq_boxes d p szs)"
proof (induction szs arbitrary: p l)
  case Nil
  then show ?case by simp
next
  case (Cons sz szs)
  from Cons.prems have sz: "box_sz d p e = sz" and hdr: "box_hdr d p \<le> sz"
    and rest: "box_seq d e (p + sz) q szs" by simp_all
  from box_seq_le [OF rest] Cons.prems(2) have le: "p + sz \<le> e" by simp
  have "8 \<le> sz" using hdr box_hdr_ge8 [of d p] by simp
  with le have p8: "p + 8 \<le> e" by simp
  let ?b = "\<lparr>box_type = fcc d (p + 4), box_s = p, box_e = p + sz, box_d = p + box_hdr d p\<rparr>"
  have "parseBoxes_loop d e p l = parseBoxes_loop d e (p + sz) (l @ [?b])"
    using parseBoxes_loop_accept [of p e d l] sz hdr le p8 by simp
  also have "\<dots> = parseBoxes_loop d e q ((l @ [?b]) @ seq_boxes d (p + sz) szs)"
    by (rule Cons.IH [OF rest Cons.prems(2)])
  finally show ?case by simp
qed

lemma tiles_seq_boxes: "box_seq d e p q szs \<Longrightarrow> tiles p q (seq_boxes d p szs)"
proof (induction szs arbitrary: p)
  case Nil
  then show ?case by simp
next
  case (Cons sz szs)
  then show ?case using box_hdr_ge8 [of d p] by auto
qed

lemma parseBoxes_loop_inv:
  "s \<le> p \<Longrightarrow>
   \<forall>b\<in>set l. s \<le> box_s b \<and> box_s b \<le> box_d b \<and> box_d b \<le> box_e b \<and> box_e b \<le> e \<Longrightarrow>
   \<forall>b\<in>set (parseBoxes_loop d e p l).
     s \<le> box_s b \<and> box_s b \<le> box_d b \<and> box_d b \<le> box_e b \<and> box_e b \<le> e"
proof (induction d e p l rule: parseBoxes_loop.induct)
  case (1 d e p l)
  show ?case
  proof (cases "p + 8 \<le> e \<and> \<not> box_sz d p e < box_hdr d p \<and> p + box_sz d p e \<le> e")
    case True
    let ?b = "\<lparr>box_type = fcc d (p + 4), box_s = p, box_e = p + box_sz d p e,
                box_d = p + box_hdr d p\<rparr>"
    have step: "parseBoxes_loop d e p l = parseBoxes_loop d e (p + box_sz d p e) (l @ [?b])"
      using True by (simp add: parseBoxes_loop_accept)
    have "\<forall>b\<in>set (parseBoxes_loop d e (p + box_sz d p e) (l @ [?b])).
            s \<le> box_s b \<and> box_s b \<le> box_d b \<and> box_d b \<le> box_e b \<and> box_e b \<le> e"
      using True "1.prems" by (intro "1.IH") auto
    with step show ?thesis by simp
  next
    case False
    then have "parseBoxes_loop d e p l = l"
      by (rule parseBoxes_loop_exit)
    with "1.prems" show ?thesis by simp
  qed
qed

lemma parseBoxes_fuel_enough:
  "(e - p) div 8 < n \<Longrightarrow> parseBoxes_fuel n d e p l = Some (parseBoxes_loop d e p l)"
proof (induction n arbitrary: p l)
  case 0
  then show ?case by simp
next
  case (Suc n)
  show ?case
  proof (cases "p + 8 \<le> e \<and> \<not> box_sz d p e < box_hdr d p \<and> p + box_sz d p e \<le> e")
    case True
    let ?b = "\<lparr>box_type = fcc d (p + 4), box_s = p, box_e = p + box_sz d p e,
                box_d = p + box_hdr d p\<rparr>"
    have "8 \<le> box_sz d p e" using True box_hdr_ge8 [of d p] by simp
    with True Suc.prems have "(e - (p + box_sz d p e)) div 8 < n" by arith
    then have "parseBoxes_fuel n d e (p + box_sz d p e) (l @ [?b]) =
               Some (parseBoxes_loop d e (p + box_sz d p e) (l @ [?b]))"
      by (rule Suc.IH)
    moreover have "parseBoxes_loop d e p l = parseBoxes_loop d e (p + box_sz d p e) (l @ [?b])"
      using True by (simp add: parseBoxes_loop_accept)
    ultimately show ?thesis using True by simp
  next
    case False
    then have "parseBoxes_loop d e p l = l"
      by (rule parseBoxes_loop_exit)
    with False show ?thesis by auto
  qed
qed

lemma parseBoxes_three_boxes:
  "parseBoxes three_boxes 0 40 =
     [\<lparr>box_type = ''free'', box_s = 0, box_e = 8, box_d = 8\<rparr>,
      \<lparr>box_type = ''mdat'', box_s = 8, box_e = 32, box_d = 24\<rparr>,
      \<lparr>box_type = ''meta'', box_s = 32, box_e = 40, box_d = 40\<rparr>]"
  by (simp add: three_boxes_def box_eval)

lemma box_seq_three_boxes: "box_seq three_boxes 40 0 40 [8, 24, 8]"
  by (simp add: three_boxes_def box_eval)

text \<open>
  C6: when the boxes of a buffer with the declared sizes \<open>szs\<close>, each at least its header
  length, lie one after the other from \<open>s\<close> and end exactly at \<open>e\<close>, the boxes that
  \<open>parseBoxes\<close> returns tile the range from \<open>s\<close> to \<open>e\<close>, without gap or overlap, and
  they are the boxes of that sequence.
\<close>

theorem parseBoxes_tiles:
  assumes "box_seq d e s e szs"
  shows "tiles s e (parseBoxes d s e) \<and> parseBoxes d s e = seq_boxes d s szs"
proof -
  have "parseBoxes d s e = parseBoxes_loop d e e ([] @ seq_boxes d s szs)"
    unfolding parseBoxes_def using assms by (intro parseBoxes_loop_seq) simp_all
  then have eq: "parseBoxes d s e = seq_boxes d s szs"
    by (simp add: parseBoxes_loop_exit)
  with tiles_seq_boxes [OF assms] show ?thesis by simp
qed

theorem parseBoxes_tiles_witness:
  "box_seq three_boxes 40 0 40 [8, 24, 8] \<and> tiles 0 40 (parseBoxes three_boxes 0 40)
   \<and> parseBoxes three_boxes 0 40 = seq_boxes three_boxes 0 [8, 24, 8]"
  using parseBoxes_tiles [OF box_seq_three_boxes] box_seq_three_boxes by simp

text \<open>
  C7: when the loop of \<open>parseBoxes\<close> is at a box whose declared size is smaller than its
  header length or reaches beyond the end of the scan range, it returns the boxes it has
  accumulated; the result is a list in every case, no error is raised. So a well-formed
  box sequence from \<open>s\<close> to \<open>q\<close> followed by such a box at \<open>q\<close> parses to exactly
  the boxes of the sequence, and so does one followed by fewer than 8 bytes.
\<close>

theorem parseBoxes_truncates:
  "(p + 8 \<le> e \<and> (box_sz d p e < box_hdr d p \<or> e < p + box_sz d p e)
      \<longrightarrow> parseBoxes_loop d e p l = l) \<and>
   (box_seq d e s q szs \<and> q + 8 \<le> e \<and> (box_sz d q e < box_hdr d q \<or> e < q + box_sz d q e)
      \<longrightarrow> parseBoxes d s e = seq_boxes d s szs) \<and>
   (box_seq d e s q szs \<and> q \<le> e \<and> e < q + 8 \<longrightarrow> parseBoxes d s e = seq_boxes d s szs)"
proof (intro conjI impI)
  assume "p + 8 \<le> e \<and> (box_sz d p e < box_hdr d p \<or> e < p + box_sz d p e)"
  then show "parseBoxes_loop d e p l = l"
    by (intro parseBoxes_loop_exit) auto
next
  assume a: "box_seq d e s q szs \<and> q + 8 \<le> e \<and>
             (box_sz d q e < box_hdr d q \<or> e < q + box_sz d q e)"
  then have "parseBoxes d s e = parseBoxes_loop d e q ([] @ seq_boxes d s szs)"
    unfolding parseBoxes_def by (intro parseBoxes_loop_seq) simp_all
  also have "\<dots> = [] @ seq_boxes d s szs"
    using a by (intro parseBoxes_loop_exit) auto
  finally show "parseBoxes d s e = seq_boxes d s szs" by simp
next
  assume a: "box_seq d e s q szs \<and> q \<le> e \<and> e < q + 8"
  then have "parseBoxes d s e = parseBoxes_loop d e q ([] @ seq_boxes d s szs)"
    unfolding parseBoxes_def by (intro parseBoxes_loop_seq) simp_all
  also have "\<dots> = [] @ seq_boxes d s szs"
    using a by (intro parseBoxes_loop_exit) auto
  finally show "parseBoxes d s e = seq_boxes d s szs" by simp
qed

theorem parseBoxes_truncates_witness:
  "(8 + 8 \<le> (20::nat) \<and> 20 < 8 + box_sz truncated_boxes 8 20
    \<and> parseBoxes_loop truncated_boxes 20 8 [] = []) \<and>
   (box_seq truncated_boxes 20 0 8 [8]
    \<and> parseBoxes truncated_boxes 0 20 = [\<lparr>box_type = ''free'', box_s = 0, box_e = 8, box_d = 8\<rparr>]) \<and>
   (box_seq truncated_boxes 12 0 8 [8] \<and> (8::nat) \<le> 12 \<and> (12::nat) < 8 + 8
    \<and> parseBoxes truncated_boxes 0 12 = [\<lparr>box_type = ''free'', box_s = 0, box_e = 8, box_d = 8\<rparr>])"
proof -
  have sz: "box_sz truncated_boxes 8 20 = 100"
    by (simp add: truncated_boxes_def box_eval)
  have seq: "box_seq truncated_boxes 20 0 8 [8]" "box_seq truncated_boxes 12 0 8 [8]"
    by (simp_all add: truncated_boxes_def box_eval)
  have boxes: "seq_boxes truncated_boxes 0 [8] =
               [\<lparr>box_type = ''free'', box_s = 0, box_e = 8, box_d = 8\<rparr>]"
    by (simp add: truncated_boxes_def box_eval)
  from parseBoxes_truncates [of 8 20 truncated_boxes "[]" 0 8 "[8]"]
    parseBoxes_truncates [of 8 12 truncated_boxes "[]" 0 8 "[8]"] sz seq boxes
  show ?thesis by simp
qed

text \<open>
  C8: when the end \<open>e\<close> of the scan range does not exceed the buffer length, every box
  that \<open>parseBoxes\<close> returns satisfies \<open>s \<le> d \<le> e \<le> buffer length\<close> in its own
  fields (and starts in the scan range), whatever the bytes of the buffer are.
\<close>

theorem parseBoxes_invariant:
  assumes "e \<le> length d"
  shows "\<forall>b\<in>set (parseBoxes d s e).
           s \<le> box_s b \<and> box_s b \<le> box_d b \<and> box_d b \<le> box_e b \<and> box_e b \<le> length d"
proof -
  have "\<forall>b\<in>set (parseBoxes_loop d e s []).
          s \<le> box_s b \<and> box_s b \<le> box_d b \<and> box_d b \<le> box_e b \<and> box_e b \<le> e"
    by (rule parseBoxes_loop_inv) simp_all
  with assms show ?thesis
    unfolding parseBoxes_def by (meson order_trans)
qed

theorem parseBoxes_invariant_witness:
  "40 \<le> length three_boxes \<and>
   \<lparr>box_type = ''mdat'', box_s = 8, box_e = 32, box_d = 24\<rparr> \<in> set (parseBoxes three_boxes 0 40) \<and>
   (8::nat) \<le> 24 \<and> (24::nat) \<le> 32 \<and> 32 \<le> length three_boxes"
proof -
  have len: "40 \<le> length three_boxes"
    by (simp add: three_boxes_def)
  have mem: "\<lparr>box_type = ''mdat'', box_s = 8, box_e = 32, box_d = 24\<rparr>
             \<in> set (parseBoxes three_boxes 0 40)"
    by (simp add: parseBoxes_three_boxes)
  from parseBoxes_invariant [OF len, of 0] mem
  have "box_s \<lparr>box_type = ''mdat'', box_s = 8, box_e = 32, box_d = 24\<rparr>
          \<le> box_d \<lparr>box_type = ''mdat'', box_s = 8, box_e = 32, box_d = 24\<rparr>
        \<and> box_d \<lparr>box_type = ''mdat'', box_s = 8, box_e = 32, box_d = 24\<rparr>
          \<le> box_e \<lparr>box_type = ''mdat'', box_s = 8, box_e = 32, box_d = 24\<rparr>
        \<and> box_e \<lparr>box_type = ''mdat'', box_s = 8, box_e = 32, box_d = 24\<rparr> \<le> length three_boxes"
    by blast
  with len mem show ?thesis by simp
qed

text \<open>
  C10: \<open>parseBoxes\<close> terminates for every buffer and all indices. A pass of the loop body
  that accepts a box moves the scan position forward by the declared size, which is at
  least 8, and not beyond \<open>e\<close>, so the rest of the range shrinks; every other pass
  leaves the loop. Hence the loop leaves after at most \<open>(e - s) div 8 + 1\<close> passes:
  bounded by that number, it returns the result of \<open>parseBoxes\<close>.
\<close>

theorem parseBoxes_terminates:
  "(p + 8 \<le> e \<and> \<not> (box_sz d p e < box_hdr d p \<or> e < p + box_sz d p e)
      \<longrightarrow> p + 8 \<le> p + box_sz d p e \<and> p + box_sz d p e \<le> e
          \<and> e - (p + box_sz d p e) < e - p) \<and>
   parseBoxes_fuel (Suc ((e - s) div 8)) d e s [] = Some (parseBoxes d s e)"
proof (intro conjI impI)
  assume a: "p + 8 \<le> e \<and> \<not> (box_sz d p e < box_hdr d p \<or> e < p + box_sz d p e)"
  with box_hdr_ge8 [of d p] show "p + 8 \<le> p + box_sz d p e" by simp
  from a show "p + box_sz d p e \<le> e" by simp
  from a box_hdr_ge8 [of d p] show "e - (p + box_sz d p e) < e - p" by arith
next
  show "parseBoxes_fuel (Suc ((e - s) div 8)) d e s [] = Some (parseBoxes d s e)"
    unfolding parseBoxes_def by (rule parseBoxes_fuel_enough) simp
qed

theorem parseBoxes_terminates_witness:
  "(0 + 8 \<le> (40::nat) \<and> \<not> (box_sz three_boxes 0 40 < box_hdr three_boxes 0
                              \<or> 40 < 0 + box_sz three_boxes 0 40)
    \<and> 0 + 8 \<le> 0 + box_sz three_boxes 0 40 \<and> 0 + box_sz three_boxes 0 40 \<le> 40
    \<and> 40 - (0 + box_sz three_boxes 0 40) < 40 - (0::nat)) \<and>
   parseBoxes_fuel (Suc ((40 - 0) div 8)) three_boxes 40 0 [] = Some (parseBoxes three_boxes 0 40)"
proof -
  have sz: "box_sz three_boxes 0 40 = 8" and hdr: "box_hdr three_boxes 0 = 8"
    by (simp_all add: three_boxes_def box_eval)
  from parseBoxes_terminates [of 0 40 three_boxes 0] sz hdr show ?thesis by simp
qed

subsection \<open>The bitstream reformatter\<close>

lemma or_byte_eq_add:
  "push_bit 8 (w :: 32 word) OR ucast (b :: 8 word) = push_bit 8 w + ucast b"
proof (rule disjunctive_add [symmetric])
  fix n
  show "\<not> bit (push_bit 8 w) n \<or> \<not> bit (ucast b :: 32 word) n"
    by (auto simp: bit_push_bit_iff bit_ucast_iff dest: bit_imp_le_length)
qed

lemma unat_ucast_byte: "unat (ucast (b :: 8 word) :: 32 word) = unat b"
  by (simp add: unsigned_ucast_eq take_bit_nat_eq_self_iff) 
     (use unsigned_less [of b, where 'a = nat] in simp)

lemma unat_byte_less: "unat (b :: 8 word) < 256"
  using unsigned_less [of b, where 'a = nat] by simp

lemma unat_shift_or:
  assumes "unat (w :: 32 word) < 2 ^ 24"
  shows "unat (push_bit 8 w OR ucast (b :: 8 word)) = unat w * 256 + unat b"
proof -
  have m: "unat (w * 256) = unat w * 256"
    using assms unat_mult_lem [of w 256] by simp
  have "unat (w * 256) + unat (ucast b :: 32 word) < 2 ^ LENGTH(32)"
    using assms unat_byte_less [of b] by (simp add: m unat_ucast_byte)
  then have "unat (w * 256 + ucast b) = unat (w * 256) + unat (ucast b :: 32 word)"
    by (simp only: unat_add_lem)
  then show ?thesis
    unfolding or_byte_eq_add by (simp add: push_bit_eq_mult m unat_ucast_byte)
qed


lemma be_nat_snoc: "be_nat (bs @ [b]) = be_nat bs * 256 + unat b"
  by (simp add: be_nat_def)

lemma be_nat_less: "be_nat bs < 256 ^ length bs"
proof (induction bs rule: rev_induct)
  case Nil
  then show ?case by (simp add: be_nat_def)
next
  case (snoc b bs)
  have "be_nat bs * 256 + unat b < (be_nat bs + 1) * 256"
    using unat_byte_less [of b] by simp
  also have "\<dots> \<le> 256 ^ length bs * 256"
    using snoc.IH by (intro mult_le_mono1) simp
  finally show ?case by (simp add: be_nat_snoc)
qed

lemma nal_fold_unat:
  assumes "ri + k \<le> length raw" and "k \<le> 4"
  shows "unat (fold (\<lambda>b nl. push_bit 8 nl OR int32_of (byte_at raw (ri + b))) [0..<k] (0 :: 32 word))
         = be_nat (take k (drop ri raw))"
  using assms
proof (induction k)
  case 0
  then show ?case by (simp add: be_nat_def)
next
  case (Suc k)
  let ?w = "fold (\<lambda>b nl. push_bit 8 nl OR int32_of (byte_at raw (ri + b))) [0..<k] (0 :: 32 word)"
  from Suc have IH: "unat ?w = be_nat (take k (drop ri raw))" by simp
  have "be_nat (take k (drop ri raw)) < 256 ^ length (take k (drop ri raw))"
    by (rule be_nat_less)
  also have "\<dots> \<le> 256 ^ 3"
    using Suc.prems by (intro power_increasing) simp_all
  finally have small: "unat ?w < 2 ^ 24" using IH by simp
  have at: "byte_at raw (ri + k) = Some (raw ! (ri + k))"
    using Suc.prems by (simp add: byte_at_def)
  have tk: "take (Suc k) (drop ri raw) = take k (drop ri raw) @ [raw ! (ri + k)]"
    using Suc.prems by (simp add: take_Suc_conv_app_nth)
  have i32: "int32_of (Some (raw ! (ri + k))) = ucast (raw ! (ri + k))"
    by (simp add: int32_of_def)
  show ?case
    by (simp add: at i32 unat_shift_or [OF small] IH tk be_nat_snoc)
qed


lemma sint_unat32:
  "sint (w :: 32 word) = (if unat w < 2 ^ 31 then int (unat w) else int (unat w) - 2 ^ 32)"
proof -
  define k where "k = uint w"
  have lt: "k < 2 ^ 32"
    using unsigned_less [of w, where 'a = int] unfolding k_def by simp
  have ge: "0 \<le> k" unfolding k_def by simp
  have s: "sint w = signed_take_bit 31 k"
    unfolding k_def by (simp add: sint_uint)
  have n: "unat w = nat k" unfolding k_def by simp
  have c: "unat w < 2 ^ 31 \<longleftrightarrow> k < 2 ^ 31"
    unfolding n using ge by auto
  have i: "int (unat w) = k" unfolding n using ge by simp
  show ?thesis
  proof (cases "k < 2 ^ 31")
    case True
    moreover have "- (2 ^ 31) \<le> k"
    proof -
      have "- (2 ^ 31) \<le> (0::int)" by simp
      also note ge
      finally show ?thesis .
    qed
    ultimately have "signed_take_bit 31 k = k"
      by (rule signed_take_bit_int_eq_self [rotated])
    with True show ?thesis unfolding s c i by simp
  next
    case False
    then have "k div 2 ^ 31 = 1" using lt by simp
    then have b: "bit k 31" by (simp add: bit_iff_odd)
    have "take_bit 32 k = k"
      using lt ge by (simp add: take_bit_int_eq_self)
    then have "signed_take_bit 31 k = k - 2 ^ 32"
      using b by (simp add: signed_take_bit_eq_take_bit_minus)
    with False show ?thesis unfolding s c i by simp
  qed
qed

lemma nal_len_be:
  assumes "ri + n \<le> length raw" and "n \<le> 4"
  shows "nal_len raw ri n =
         (if be_nat (take n (drop ri raw)) < 2 ^ 31 then int (be_nat (take n (drop ri raw)))
          else int (be_nat (take n (drop ri raw))) - 2 ^ 32)"
  unfolding nal_len_def sint_unat32 nal_fold_unat [OF assms] by simp

lemma be_nat_lt32: "length bs \<le> 4 \<Longrightarrow> be_nat bs < 2 ^ 32"
proof -
  assume "length bs \<le> 4"
  then have "(256::nat) ^ length bs \<le> 256 ^ 4" by (intro power_increasing) simp_all
  with be_nat_less [of bs] show ?thesis by simp
qed

lemma nal_len_nonpos:
  assumes "ri + n \<le> length raw" and "n \<le> 4"
  shows "nal_len raw ri n \<le> 0 \<longleftrightarrow>
         be_nat (take n (drop ri raw)) = 0 \<or> 2 ^ 31 \<le> be_nat (take n (drop ri raw))"
  using be_nat_lt32 [of "take n (drop ri raw)"] assms
  by (simp add: nal_len_be [OF assms])

lemma nal_len_pos:
  assumes "ri + n \<le> length raw" and "n \<le> 4" and "\<not> nal_len raw ri n \<le> 0"
  shows "nal_len raw ri n = int (be_nat (take n (drop ri raw)))"
  using assms(3) be_nat_lt32 [of "take n (drop ri raw)"] assms(1,2)
  by (simp add: nal_len_be [OF assms(1,2)] split: if_splits)


lemma pushed_append: "pushed (xs @ ys) = pushed xs @ pushed ys"
  by (simp add: pushed_def)

lemma pushed_Cons: "pushed (x # xs) = [SC, x] @ pushed xs"
  by (simp add: pushed_def)

lemma chunk_loop_nals:
  assumes n: "n \<le> 4"
  shows "ri \<le> length raw \<Longrightarrow>
         chunk_loop raw n ri parts = parts @ pushed (chunk_nals n (drop ri raw))"
  using n
proof (induction raw n ri parts rule: chunk_loop.induct)
  case (1 raw n ri parts)
  note n4 = \<open>n \<le> 4\<close>
  show ?case
  proof (cases "ri + n \<le> length raw")
    case False
    then have "chunk_loop raw n ri parts = parts"
      by (subst chunk_loop.simps) simp
    moreover from False "1.prems"(1) have "length (drop ri raw) < n" by simp
    then have "chunk_nals n (drop ri raw) = []"
      by (subst chunk_nals.simps) simp
    ultimately show ?thesis by (simp add: pushed_def)
  next
    case fits: True
    define v where "v = be_nat (take n (drop ri raw))"
    define rest where "rest = drop n (drop ri raw)"
    have rest_len: "length rest = length raw - (ri + n)"
      by (simp add: rest_def)
    have stop: "nal_len raw ri n \<le> 0 \<longleftrightarrow> v = 0 \<or> 2 ^ 31 \<le> v"
      unfolding v_def by (rule nal_len_nonpos [OF fits n4])
    have nals: "chunk_nals n (drop ri raw) =
                (if v = 0 \<or> 2 ^ 31 \<le> v \<or> length rest < v then []
                 else take v rest # chunk_nals n (drop v rest))"
    proof -
      from fits have "\<not> length (drop ri raw) < n" by simp
      then show ?thesis
        by (subst chunk_nals.simps) (simp add: Let_def v_def rest_def)
    qed
    show ?thesis
    proof (cases "nal_len raw ri n \<le> 0 \<or> int (ri + n) + nal_len raw ri n > int (length raw)")
      case True
      then have l: "chunk_loop raw n ri parts = parts"
        using fits by (subst chunk_loop.simps) simp
      have "v = 0 \<or> 2 ^ 31 \<le> v \<or> length rest < v"
      proof (cases "nal_len raw ri n \<le> 0")
        case True
        with stop show ?thesis by blast
      next
        case False
        have "nal_len raw ri n = int v"
          unfolding v_def by (rule nal_len_pos [OF fits n4 False])
        with True False have "length raw < ri + n + v" by linarith
        then have "length rest < v" using fits by (simp add: rest_len)
        then show ?thesis by blast
      qed
      with nals l show ?thesis by (simp add: pushed_def)
    next
      case False
      then have pos: "\<not> nal_len raw ri n \<le> 0" by simp
      have nl: "nal_len raw ri n = int v"
        unfolding v_def by (rule nal_len_pos [OF fits n4 pos])
      from False nl have le: "ri + n + v \<le> length raw" by linarith
      from pos stop have ok: "\<not> (v = 0 \<or> 2 ^ 31 \<le> v \<or> length rest < v)"
        using le by (simp add: rest_len)
      have l: "chunk_loop raw n ri parts =
               chunk_loop raw n (ri + n + v) (parts @ [SC, slice raw (ri + n) (ri + n + v)])"
        using fits False by (subst chunk_loop.simps) (simp add: nl)
      have "chunk_loop raw n (ri + n + nat (nal_len raw ri n))
              (parts @ [SC, slice raw (ri + n) (ri + n + nat (nal_len raw ri n))])
            = (parts @ [SC, slice raw (ri + n) (ri + n + nat (nal_len raw ri n))])
              @ pushed (chunk_nals n (drop (ri + n + nat (nal_len raw ri n)) raw))"
        using le n4 by (intro "1.IH" [OF fits False]) (simp_all add: nl)
      then have IH: "chunk_loop raw n (ri + n + v) (parts @ [SC, slice raw (ri + n) (ri + n + v)])
                = (parts @ [SC, slice raw (ri + n) (ri + n + v)])
                  @ pushed (chunk_nals n (drop (ri + n + v) raw))"
        by (simp add: nl)
      have "take v rest = slice raw (ri + n) (ri + n + v)"
        by (simp add: rest_def slice_def ac_simps)
      moreover have "drop v rest = drop (ri + n + v) raw"
        by (simp add: rest_def ac_simps)
      ultimately have "chunk_nals n (drop ri raw) =
            slice raw (ri + n) (ri + n + v) # chunk_nals n (drop (ri + n + v) raw)"
        using nals ok by simp
      with l IH show ?thesis by (simp add: pushed_Cons)
    qed
  qed
qed

lemma ps_nal_loop_nals:
  "ps_nal_loop hvcC n (hp, parts) =
     (snd (array_nals hvcC n hp), parts @ pushed (fst (array_nals hvcC n hp)))"
proof (induction n arbitrary: hp parts)
  case 0
  then show ?case by (simp add: pushed_def)
next
  case (Suc n)
  show ?case
    by (simp add: Suc.IH Let_def split_beta pushed_Cons)
qed

lemma ps_array_loop_nals:
  "snd (ps_array_loop hvcC a (hp, parts)) = parts @ pushed (arrays_nals hvcC a hp)"
proof (induction a arbitrary: hp parts)
  case 0
  then show ?case by (simp add: pushed_def)
next
  case (Suc a)
  show ?case
    by (simp add: ps_nal_loop_nals Suc.IH split_beta pushed_append)
qed

lemma ps_parts_nals: "ps_parts hvcC = pushed (parameterSetNALs hvcC)"
  by (simp add: ps_parts_def parameterSetNALs_def ps_array_loop_nals)

lemma fold_tot: "fold (\<lambda>p n. n + length p) parts k = k + length (concat parts)"
  by (induction parts arbitrary: k) simp_all

lemma copy_parts_concat:
  "off + length (concat ps) \<le> length buf \<Longrightarrow>
   copy_parts ps off buf = Some (take off buf @ concat ps @ drop (off + length (concat ps)) buf)"
proof (induction ps arbitrary: off buf)
  case Nil
  then show ?case by simp
next
  case (Cons part ps)
  let ?buf = "take off buf @ part @ drop (off + length part) buf"
  from Cons.prems have fit: "off + length part \<le> length buf" by simp
  then have len: "length ?buf = length buf" by simp
  have "copy_parts (part # ps) off buf = copy_parts ps (off + length part) ?buf"
    using fit by (simp add: typed_array_set_def)
  also have "\<dots> = Some (take (off + length part) ?buf @ concat ps
                        @ drop (off + length part + length (concat ps)) ?buf)"
    using Cons.prems by (intro Cons.IH) (simp add: len)
  also have "take (off + length part) ?buf = take off buf @ part"
    using fit by simp
  also have "drop (off + length part + length (concat ps)) ?buf
             = drop (off + length (concat (part # ps))) buf"
    using fit by (simp add: ac_simps)
  finally show ?case by simp
qed

lemma annexB_concat: "annexB parts = Some (concat parts)"
  by (simp add: annexB_def fold_tot copy_parts_concat)

lemma concat_pushed: "concat (pushed nals) = start_coded nals"
  by (induction nals) (simp_all add: pushed_def start_coded_def SC_def)

lemma naluLenSize_range: "naluLenSize hvcC \<in> {1, 2, 3, 4}"
proof -
  have "unat (int32_of (byte_at hvcC 21) AND 3) \<le> unat (3 :: 32 word)"
    by (rule word_and_le1 [THEN word_le_nat_alt [THEN iffD1]])
  then have "unat (int32_of (byte_at hvcC 21) AND 3) \<le> 3" by simp
  then show ?thesis unfolding naluLenSize_def by auto
qed

lemma length_start_coded: "length (start_coded nals) = (\<Sum>nal\<leftarrow>nals. 4 + length nal)"
  by (induction nals) (simp_all add: start_coded_def)

lemma reformat_pushed:
  assumes "n \<le> 4"
  shows "reformat (pushed nals) raw n = Some (start_coded nals @ start_coded (chunk_nals n raw))"
proof -
  have "chunk_loop raw n 0 (pushed nals) = pushed nals @ pushed (chunk_nals n (drop 0 raw))"
    using assms by (intro chunk_loop_nals) simp_all
  then show ?thesis
    by (simp add: reformat_def annexB_concat concat_pushed)
qed

text \<open>
  C3: for every sequence of parameter-set NALs, every chunk and every length size from 1
  to 4, the reformatter returns each parameter-set NAL behind the start code
  \<open>00 00 00 01\<close>, followed by each NAL unit of the chunk behind the same start code,
  where the chunk is walked by big-endian lengths until fewer bytes than a length remain
  or a length is zero or invalid. The length of the output is the sum of the lengths of
  the emitted segments, and the parameter-set NALs come first. The same holds from
  \<open>hvcC\<close>, whose length size is always from 1 to 4.
\<close>

theorem reformat_start_coded:
  assumes "n \<in> {1, 2, 3, 4}"
  shows "reformat (pushed nals) raw n
           = Some (start_coded nals @ start_coded (chunk_nals n raw))
         \<and> length (start_coded nals @ start_coded (chunk_nals n raw))
           = (\<Sum>nal\<leftarrow>nals. 4 + length nal) + (\<Sum>nal\<leftarrow>chunk_nals n raw. 4 + length nal)
         \<and> naluLenSize hvcC \<in> {1, 2, 3, 4}
         \<and> hvcC_annexB hvcC raw
           = Some (start_coded (parameterSetNALs hvcC)
                   @ start_coded (chunk_nals (naluLenSize hvcC) raw))"
proof -
  from assms have n4: "n \<le> 4" by auto
  from naluLenSize_range [of hvcC] have h4: "naluLenSize hvcC \<le> 4" by auto
  show ?thesis
    using reformat_pushed [OF n4] reformat_pushed [OF h4] naluLenSize_range [of hvcC]
    by (simp add: length_start_coded hvcC_annexB_def ps_parts_nals)
qed

lemma chunk_nals_chunk10: "chunk_nals 4 chunk10 = [[38, 1, 175, 8, 64, 127, 200, 17, 3, 9]]"
proof -
  have "chunk_nals 4 [] = []"
    by (subst chunk_nals.simps) simp
  then show ?thesis
    by (subst chunk_nals.simps) (simp add: chunk10_def be_nat_def)
qed

theorem reformat_start_coded_witness:
  "(4::nat) \<in> {1, 2, 3, 4}
   \<and> reformat (pushed [nal5, nal7]) chunk10 4
     = Some ([0, 0, 0, 1] @ nal5 @ [0, 0, 0, 1] @ nal7
             @ [0, 0, 0, 1] @ [38, 1, 175, 8, 64, 127, 200, 17, 3, 9])
   \<and> length ([0, 0, 0, 1] @ nal5 @ [0, 0, 0, 1] @ nal7
             @ [0, 0, 0, 1] @ [38 :: byte, 1, 175, 8, 64, 127, 200, 17, 3, 9])
     = 4 + 5 + (4 + 7) + (4 + 10)"
proof -
  have n: "(4::nat) \<in> {1, 2, 3, 4}" by simp
  from reformat_start_coded [OF n, of "[nal5, nal7]" chunk10] show ?thesis
    by (simp add: chunk_nals_chunk10 start_coded_def nal5_def nal7_def)
qed

subsection \<open>The item locator\<close>

lemma int32_of_ucast:
  "int32_of (byte_at d p) = ucast ((case byte_at d p of None \<Rightarrow> 0 | Some x \<Rightarrow> x) :: byte)"
  by (simp add: int32_of_def split: option.splits)

lemma byte_val_unat:
  "byte_val d p = unat ((case byte_at d p of None \<Rightarrow> 0 | Some x \<Rightarrow> x) :: byte)"
  by (simp add: byte_val_def split: option.splits)

lemma unat_int32_of: "unat (int32_of (byte_at d p)) = byte_val d p"
  by (simp add: int32_of_ucast byte_val_unat unat_ucast_byte)

lemma byte_val_less: "byte_val d p < 256"
  unfolding byte_val_unat by (rule unat_byte_less)

lemma r16_value: "r16 d p = byte_val d p * 256 + byte_val d (p + 1)"
proof -
  have "unat (int32_of (byte_at d p)) < 2 ^ 24"
    using byte_val_less [of d p] by (simp add: unat_int32_of)
  then show ?thesis
    unfolding r16_def int32_of_ucast [of d "p + 1"]
    by (simp add: unat_shift_or unat_int32_of byte_val_unat)
qed

lemma r32_value:
  "r32 d p = ((byte_val d p * 256 + byte_val d (p + 1)) * 256 + byte_val d (p + 2)) * 256
             + byte_val d (p + 3)"
proof -
  let ?a = "int32_of (byte_at d p)"
  let ?b = "(case byte_at d (p + 1) of None \<Rightarrow> 0 | Some x \<Rightarrow> x) :: byte"
  let ?c = "(case byte_at d (p + 2) of None \<Rightarrow> 0 | Some x \<Rightarrow> x) :: byte"
  let ?e = "(case byte_at d (p + 3) of None \<Rightarrow> 0 | Some x \<Rightarrow> x) :: byte"
  have shape: "push_bit 24 ?a OR push_bit 16 (ucast ?b) OR push_bit 8 (ucast ?c) OR ucast ?e
        = push_bit 8 (push_bit 8 (push_bit 8 ?a OR ucast ?b) OR ucast ?c) OR ucast ?e"
    by (simp add: push_bit_or push_bit_push_bit or.assoc)
  have a: "unat ?a < 256" using byte_val_less [of d p] by (simp add: unat_int32_of)
  then have a24: "unat ?a < 2 ^ 24" by simp
  have 1: "unat (push_bit 8 ?a OR ucast ?b) = unat ?a * 256 + unat ?b"
    by (rule unat_shift_or [OF a24])
  have "unat ?a * 256 + unat ?b < 256 * 256"
    using a unat_byte_less [of ?b] by simp
  then have b24: "unat (push_bit 8 ?a OR ucast ?b) < 2 ^ 24" unfolding 1 by simp
  have 2: "unat (push_bit 8 (push_bit 8 ?a OR ucast ?b) OR ucast ?c)
           = (unat ?a * 256 + unat ?b) * 256 + unat ?c"
    unfolding unat_shift_or [OF b24] 1 by simp
  have "(unat ?a * 256 + unat ?b) * 256 + unat ?c < 256 * 256 * 256"
    using a unat_byte_less [of ?b] unat_byte_less [of ?c] by simp
  then have c24: "unat (push_bit 8 (push_bit 8 ?a OR ucast ?b) OR ucast ?c) < 2 ^ 24"
    unfolding 2 by simp
  have 3: "unat (push_bit 8 (push_bit 8 (push_bit 8 ?a OR ucast ?b) OR ucast ?c) OR ucast ?e)
           = ((unat ?a * 256 + unat ?b) * 256 + unat ?c) * 256 + unat ?e"
    unfolding unat_shift_or [OF c24] 2 by simp
  show ?thesis
    unfolding r32_def int32_of_ucast [of d "p + 1"] int32_of_ucast [of d "p + 2"]
      int32_of_ucast [of d "p + 3"] shape 3
    by (simp add: unat_int32_of byte_val_unat)
qed


lemma upt_2: "[p..<p + 2] = [p, p + 1]"
  by (simp add: upt_rec [of p] upt_rec [of "Suc p"])

lemma upt_4: "[p..<p + 4] = [p, p + 1, p + 2, p + 3]"
  by (simp add: upt_rec [of p] upt_rec [of "Suc p"] upt_rec [of "Suc (Suc p)"]
      upt_rec [of "Suc (Suc (Suc p))"])

lemma upt_8: "[p..<p + 8] = [p, p + 1, p + 2, p + 3] @ [p + 4, p + 4 + 1, p + 4 + 2, p + 4 + 3]"
proof -
  have e: "p + 8 = p + 4 + 4" by simp
  show ?thesis
    unfolding e upt_add_eq_append [OF le_add1] upt_4 ..
qed

lemma r16_less: "r16 d p < 2 ^ 16"
  using byte_val_less [of d p] byte_val_less [of d "p + 1"] by (simp add: r16_value)

lemma r32_less: "r32 d p < 2 ^ 32"
  using unsigned_less [of _ , where 'a = nat and 'b = 32] by (simp add: r32_def)

lemma be_read_0: "be_read d p 0 = 0"
  by (simp add: be_read_def js_number_def)

lemma be_read_2: "be_read d p 2 = r16 d p"
proof -
  have "js_number (r16 d p) = r16 d p"
    using r16_less [of d p] by (intro js_number_exact) simp
  then show ?thesis by (simp add: be_read_def upt_2 r16_value)
qed

lemma be_read_4: "be_read d p 4 = r32 d p"
proof -
  have "js_number (r32 d p) = r32 d p"
    using r32_less [of d p] by (intro js_number_exact) simp
  then show ?thesis by (simp add: be_read_def upt_4 r32_value)
qed

lemma foldl_be_shift:
  "foldl (\<lambda>v i. v * 256 + byte_val d i) a [q, q + 1, q + 2, q + 3]
   = a * 4294967296 + foldl (\<lambda>v i. v * 256 + byte_val d i) 0 [q, q + 1, q + 2, q + 3]"
  by (simp add: algebra_simps)

lemma be_read_8: "be_read d p 8 = r64 d p"
proof -
  have "foldl (\<lambda>v i. v * 256 + byte_val d i) 0 [p..<p + 8]
        = r32 d p * 4294967296 + r32 d (p + 4)"
    unfolding upt_8 foldl_append
    by (subst foldl_be_shift) (simp add: r32_value)
  then show ?thesis by (simp add: be_read_def r64_def)
qed

lemma sized_field_read:
  "sized_field d sz ip = (be_read d ip (read_width sz), ip + read_width sz)"
  by (simp add: sized_field_def read_width_def be_read_4 be_read_8 be_read_0)

lemma iloc_extents_spec:
  "iloc_extents d offSz lenSz is_primary base k (ip, chunk) =
     (case spec_extents d (read_width offSz) (read_width lenSz) base k ip of
        (locs, ip') \<Rightarrow>
          (ip', if is_primary \<and> locs \<noteq> []
                then (int (fst (last locs)), int (snd (last locs))) else chunk))"
proof (induction k arbitrary: ip chunk)
  case 0
  then show ?case by simp
next
  case (Suc k)
  obtain co cl where chunk: "chunk = (co, cl)" by (cases chunk)
  obtain locs ip' where rest:
    "spec_extents d (read_width offSz) (read_width lenSz) base k
       (ip + read_width offSz + read_width lenSz) = (locs, ip')"
    by (cases "spec_extents d (read_width offSz) (read_width lenSz) base k
                 (ip + read_width offSz + read_width lenSz)")
  show ?case
    unfolding chunk using Suc.IH rest
    by (cases is_primary) (simp_all add: sized_field_read)
qed

lemma iloc_item_spec:
  "iloc_item d ilocVer offSz lenSz baseSz primaryId (ip, chunk) =
     (case spec_entry d ilocVer (read_width offSz) (read_width lenSz) (read_width baseSz) ip of
        (item_id, locs, ip') \<Rightarrow> (ip', retain primaryId (item_id, locs) chunk))"
proof -
  obtain co cl where chunk: "chunk = (co, cl)" by (cases chunk)
  show ?thesis
    unfolding chunk iloc_item_def spec_entry_def retain_def
    by (simp add: sized_field_read iloc_extents_spec be_read_2 be_read_4 Let_def
        split: prod.splits)
qed

lemma iloc_items_spec:
  "iloc_items d ilocVer offSz lenSz baseSz primaryId n (ip, chunk) =
     (fst (iloc_items d ilocVer offSz lenSz baseSz primaryId n (ip, chunk)),
      fold (retain primaryId)
        (spec_entries d ilocVer (read_width offSz) (read_width lenSz) (read_width baseSz) n ip)
        chunk)"
proof (induction n arbitrary: ip chunk)
  case 0
  then show ?case by simp
next
  case (Suc n)
  obtain item_id locs ip' where e:
    "spec_entry d ilocVer (read_width offSz) (read_width lenSz) (read_width baseSz) ip
       = (item_id, locs, ip')"
    by (cases "spec_entry d ilocVer (read_width offSz) (read_width lenSz) (read_width baseSz) ip")
  have step: "iloc_item d ilocVer offSz lenSz baseSz primaryId (ip, chunk)
              = (ip', retain primaryId (item_id, locs) chunk)"
    by (simp add: iloc_item_spec e)
  show ?case
    by (simp add: step e) (subst Suc.IH, simp)
qed

lemma fold_retain_other:
  "\<forall>e\<in>set es. fst e \<noteq> primaryId \<Longrightarrow> fold (retain primaryId) es chunk = chunk"
  by (induction es arbitrary: chunk) (simp_all add: retain_def)

lemma iloc_extents_unfold:
  "iloc_extents d offSz lenSz is_primary base e (ip, chunkOffset, chunkLength) =
     (if e = 0 then (ip, chunkOffset, chunkLength)
      else let (off, ip1) = sized_field d offSz ip;
               (elen, ip2) = sized_field d lenSz ip1
           in iloc_extents d offSz lenSz is_primary base (e - 1)
                (if is_primary then (ip2, int (js_add base off), int elen)
                 else (ip2, chunkOffset, chunkLength)))"
  by (cases e) simp_all

lemma spec_extents_unfold:
  "spec_extents d offSz lenSz base k ip =
     (if k = 0 then ([], ip)
      else let (locs, ip') = spec_extents d offSz lenSz base (k - 1) (ip + offSz + lenSz)
           in ((js_add base (be_read d ip offSz), be_read d (ip + offSz) lenSz) # locs, ip'))"
  by (cases k) simp_all

lemma spec_entries_unfold:
  "spec_entries d ilocVer offSz lenSz baseSz n ip =
     (if n = 0 then []
      else let (item_id, locs, ip') = spec_entry d ilocVer offSz lenSz baseSz ip
           in (item_id, locs) # spec_entries d ilocVer offSz lenSz baseSz (n - 1) ip')"
  by (cases n) simp_all

lemmas iloc_eval = iloc_extents_unfold iloc_item_def sized_field_def ver_lt2_def r16_def r32_def r64_def
  byte_at_def int32_of_def js_add_def js_number_def iloc_ver_def iloc_offSz_def iloc_lenSz_def
  iloc_baseSz_def iloc_cntSz_def iloc_itemCount_def

lemmas spec_eval = spec_extents_unfold spec_entry_def be_read_def byte_val_def byte_at_def ver_lt2_def
  js_add_def js_number_def upt_rec

lemma iloc_item_444:
  "iloc_item iloc_444 (Some 0) 4 4 4 1 (8, - 1, - 1) = (34, 320, 128)"
  by (simp add: iloc_444_def iloc_eval)

lemma spec_entry_444:
  "spec_entry iloc_444 (Some 0) 4 4 4 8 = (1, [(272, 32), (320, 128)], 34)"
  by (simp add: iloc_444_def spec_eval)

text \<open>
  C2, as the code has it: the code reads a field of 4 or 8 bytes when its size nibble is
  4 or 8, and for every other nibble value it reads no byte and takes 0. With these
  widths an item entry is read as specified: the base offset, a 16-bit extent count, and
  for each extent an offset and a length; the location of an extent is the base offset
  plus the extent offset, with the extent length, and the state keeps the last location
  of an entry of the primary item. So, when the three nibbles are each 0, 4 or 8, the
  entry is read with exactly the declared sizes.
\<close>

theorem iloc_item_reads:
  "iloc_item d ilocVer offSz lenSz baseSz primaryId (ip, chunk) =
     (case spec_entry d ilocVer (read_width offSz) (read_width lenSz) (read_width baseSz) ip of
        (item_id, locs, ip') \<Rightarrow> (ip', retain primaryId (item_id, locs) chunk))
   \<and> (offSz \<in> {0, 4, 8} \<and> lenSz \<in> {0, 4, 8} \<and> baseSz \<in> {0, 4, 8} \<longrightarrow>
      iloc_item d ilocVer offSz lenSz baseSz primaryId (ip, chunk) =
        (case spec_entry d ilocVer offSz lenSz baseSz ip of
           (item_id, locs, ip') \<Rightarrow> (ip', retain primaryId (item_id, locs) chunk)))"
proof (intro conjI impI)
  show g: "iloc_item d ilocVer offSz lenSz baseSz primaryId (ip, chunk) =
     (case spec_entry d ilocVer (read_width offSz) (read_width lenSz) (read_width baseSz) ip of
        (item_id, locs, ip') \<Rightarrow> (ip', retain primaryId (item_id, locs) chunk))"
    by (rule iloc_item_spec)
  assume "offSz \<in> {0, 4, 8} \<and> lenSz \<in> {0, 4, 8} \<and> baseSz \<in> {0, 4, 8}"
  then have "read_width offSz = offSz" "read_width lenSz = lenSz" "read_width baseSz = baseSz"
    by (auto simp: read_width_def)
  with g show "iloc_item d ilocVer offSz lenSz baseSz primaryId (ip, chunk) =
        (case spec_entry d ilocVer offSz lenSz baseSz ip of
           (item_id, locs, ip') \<Rightarrow> (ip', retain primaryId (item_id, locs) chunk))"
    by simp
qed

theorem iloc_item_reads_witness:
  "(4::nat) \<in> {0, 4, 8}
   \<and> spec_entry iloc_444 (Some 0) 4 4 4 8 = (1, [(272, 32), (320, 128)], 34)
   \<and> iloc_item iloc_444 (Some 0) 4 4 4 1 (8, - 1, - 1) = (34, retain 1 (1, [(272, 32), (320, 128)]) (- 1, - 1))"
  using iloc_item_reads [of iloc_444 "Some 0" 4 4 4 1 8 "(- 1, - 1)"]
  by (simp add: spec_entry_444 read_width_def)

lemma iloc_header_220:
  "iloc_ver iloc_220 0 = Some 0" "iloc_offSz iloc_220 4 = 2" "iloc_lenSz iloc_220 4 = 2"
  "iloc_baseSz iloc_220 4 = 0"
  by (simp_all add: iloc_220_def iloc_eval)

lemma iloc_item_220: "iloc_item iloc_220 (Some 0) 2 2 0 1 (8, - 1, - 1) = (14, 0, 0)"
  by (simp add: iloc_220_def iloc_eval)

lemma spec_entry_220: "spec_entry iloc_220 (Some 0) 2 2 0 8 = (1, [(16, 32)], 18)"
  by (simp add: iloc_220_def spec_eval)

lemma iloc_chunk_220: "iloc_chunk iloc_220 0 1 = Inr (0, 0)"
proof -
  have "iloc_itemCount iloc_220 (Some 0) 4 = 1" "iloc_cntSz (Some 0) = 2"
    by (simp_all add: iloc_220_def iloc_eval)
  then show ?thesis
    using iloc_item_220 by (simp add: iloc_chunk_def iloc_header_220)
qed

text \<open>
  C2, as the claim states it, fails for a size nibble other than 0, 4 and 8: in the box
  \<open>iloc_220\<close> the offsets and lengths have 2 bytes; the code reads none of them and
  leaves the location (0, 0) with the position before the extent, where the entry read
  with the declared sizes has the location (16, 32). The locator then returns (0, 0).
\<close>

theorem iloc_item_reads_counterexample:
  "\<not> (iloc_item iloc_220 (iloc_ver iloc_220 0) (iloc_offSz iloc_220 4) (iloc_lenSz iloc_220 4)
         (iloc_baseSz iloc_220 4) 1 (8, - 1, - 1) =
       (case spec_entry iloc_220 (iloc_ver iloc_220 0) (iloc_offSz iloc_220 4)
               (iloc_lenSz iloc_220 4) (iloc_baseSz iloc_220 4) 8 of
          (item_id, locs, ip') \<Rightarrow> (ip', retain 1 (item_id, locs) (- 1, - 1))))"
  unfolding iloc_header_220 iloc_item_220 spec_entry_220 by (simp add: retain_def)

lemma unat_and_15: "unat ((w :: 32 word) AND 15) = unat w mod 16"
proof -
  have "(15 :: 32 word) = mask 4" by (simp add: mask_eq_exp_minus_1)
  then have "w AND 15 = take_bit 4 w" by (simp add: take_bit_eq_mask)
  then show ?thesis by (simp add: take_bit_eq_mod unat_mod_distrib)
qed

lemma unat_drop_bit_4: "unat (drop_bit 4 (w :: 32 word)) = unat w div 16"
  by (simp add: drop_bit_eq_div unat_div_distrib)

lemma iloc_ver_spec: "iloc_ver d iloc_d = spec_version d iloc_d"
  by (simp add: iloc_ver_def spec_version_def byte_at_def byte_val_def)

lemma iloc_lenSz_spec: "iloc_lenSz d (iloc_d + 4) = spec_length_size d iloc_d"
  by (simp add: iloc_lenSz_def spec_length_size_def unat_and_15 unat_int32_of)

lemma iloc_offSz_spec: "iloc_offSz d (iloc_d + 4) = spec_offset_size d iloc_d"
proof -
  have "byte_val d (iloc_d + 4) div 16 < 16" using byte_val_less [of d "iloc_d + 4"] by simp
  then show ?thesis
    by (simp add: iloc_offSz_def spec_offset_size_def unat_and_15 unat_drop_bit_4 unat_int32_of)
qed

lemma iloc_baseSz_spec: "iloc_baseSz d (iloc_d + 4) = spec_base_offset_size d iloc_d"
proof -
  have "byte_val d (iloc_d + 5) div 16 < 16" using byte_val_less [of d "iloc_d + 5"] by simp
  then show ?thesis
    by (simp add: iloc_baseSz_def spec_base_offset_size_def unat_and_15 unat_drop_bit_4
        unat_int32_of add.commute)
qed

lemma iloc_itemCount_spec:
  "iloc_itemCount d ver fd = be_read d (fd + 2) (if ver_lt2 ver then 2 else 4)"
  by (simp add: iloc_itemCount_def iloc_cntSz_def be_read_2 be_read_4)

lemma iloc_chunk_fold:
  "iloc_chunk d iloc_d primaryId =
     (case fold (retain primaryId)
             (spec_entries d (spec_version d iloc_d)
                (read_width (spec_offset_size d iloc_d)) (read_width (spec_length_size d iloc_d))
                (read_width (spec_base_offset_size d iloc_d))
                (be_read d (iloc_d + 6) (if ver_lt2 (spec_version d iloc_d) then 2 else 4))
                (iloc_d + 6 + (if ver_lt2 (spec_version d iloc_d) then 2 else 4)))
             (- 1, - 1) of
        (chunkOffset, chunkLength) \<Rightarrow>
          if chunkOffset < 0 then Inl Primary_item_not_found
          else Inr (chunkOffset, chunkLength))"
proof -
  let ?ver = "iloc_ver d iloc_d"
  let ?run = "iloc_items d ?ver (iloc_offSz d (iloc_d + 4)) (iloc_lenSz d (iloc_d + 4))
                (iloc_baseSz d (iloc_d + 4)) primaryId (iloc_itemCount d ?ver (iloc_d + 4))
                (iloc_d + 4 + 2 + iloc_cntSz ?ver, - 1, - 1)"
  have w: "iloc_d + 4 + 2 = iloc_d + 6" by simp
  have "snd ?run =
        fold (retain primaryId)
          (spec_entries d (spec_version d iloc_d)
             (read_width (spec_offset_size d iloc_d)) (read_width (spec_length_size d iloc_d))
             (read_width (spec_base_offset_size d iloc_d))
             (be_read d (iloc_d + 6) (if ver_lt2 (spec_version d iloc_d) then 2 else 4))
             (iloc_d + 6 + (if ver_lt2 (spec_version d iloc_d) then 2 else 4)))
          (- 1, - 1)"
    by (subst iloc_items_spec)
       (simp add: iloc_ver_spec iloc_offSz_spec iloc_lenSz_spec iloc_baseSz_spec
          iloc_itemCount_spec iloc_cntSz_def w add.commute)
  then show ?thesis
    unfolding iloc_chunk_def Let_def by (simp add: split_beta)
qed

lemma spec_eval_header:
  "spec_version iloc_three 0 = Some 0" "spec_offset_size iloc_three 0 = 4"
  "spec_length_size iloc_three 0 = 4" "spec_base_offset_size iloc_three 0 = 4"
  "spec_version iloc_222 0 = Some 0" "spec_offset_size iloc_222 0 = 2"
  "spec_length_size iloc_222 0 = 2" "spec_base_offset_size iloc_222 0 = 0"
  by (simp_all add: iloc_three_def iloc_222_def spec_version_def spec_offset_size_def
      spec_length_size_def spec_base_offset_size_def byte_val_def byte_at_def)

lemma spec_iloc_entries_three:
  "spec_iloc_entries iloc_three 0 =
     [(2, [(1100, 10)])] @ [(1, [(272, 32), (320, 128)])] @ [(3, [(400, 40)])]"
proof -
  have c: "be_read iloc_three 6 2 = 3"
    by (simp add: iloc_three_def spec_eval)
  have e: "spec_entry iloc_three (Some 0) 4 4 4 8 = (2, [(1100, 10)], 26)"
    "spec_entry iloc_three (Some 0) 4 4 4 26 = (1, [(272, 32), (320, 128)], 52)"
    "spec_entry iloc_three (Some 0) 4 4 4 52 = (3, [(400, 40)], 70)"
    by (simp_all add: iloc_three_def spec_eval)
  show ?thesis
    by (simp add: spec_iloc_entries_def spec_eval_header ver_lt2_def c spec_entries_unfold e)
qed

lemma spec_iloc_entries_222:
  "spec_iloc_entries iloc_222 0 = [] @ [(1, [(16, 32), (64, 128)])] @ []"
proof -
  have c: "be_read iloc_222 6 2 = 1"
    by (simp add: iloc_222_def spec_eval)
  have e: "spec_entry iloc_222 (Some 0) 2 2 0 8 = (1, [(16, 32), (64, 128)], 22)"
    by (simp add: iloc_222_def spec_eval)
  show ?thesis
    by (simp add: spec_iloc_entries_def spec_eval_header ver_lt2_def c spec_entries_unfold e)
qed

lemma iloc_chunk_222: "iloc_chunk iloc_222 0 1 = Inr (0, 0)"
proof -
  have h: "iloc_ver iloc_222 0 = Some 0" "iloc_offSz iloc_222 4 = 2" "iloc_lenSz iloc_222 4 = 2"
    "iloc_baseSz iloc_222 4 = 0" "iloc_itemCount iloc_222 (Some 0) 4 = 1"
    "iloc_cntSz (Some 0) = 2"
    by (simp_all add: iloc_222_def iloc_eval)
  have "iloc_item iloc_222 (Some 0) 2 2 0 1 (8, - 1, - 1) = (14, 0, 0)"
    by (simp add: iloc_222_def iloc_eval)
  then show ?thesis
    by (simp add: iloc_chunk_def h)
qed

text \<open>
  C9, as the code has it: when the size nibbles that the \<open>iloc\<close> header declares are
  each 0, 4 or 8, and the entries of the box, read with the declared sizes, contain an
  entry of the primary item that has extents, and no later entry has the id of the
  primary item, the item locator returns the location of the last extent of that entry,
  its base offset plus its extent offset with its extent length, whatever the earlier
  extents and entries are.
\<close>

theorem iloc_chunk_last_extent:
  assumes "spec_offset_size d iloc_d \<in> {0, 4, 8}"
    and "spec_length_size d iloc_d \<in> {0, 4, 8}"
    and "spec_base_offset_size d iloc_d \<in> {0, 4, 8}"
    and "spec_iloc_entries d iloc_d = es1 @ [(primaryId, locs)] @ es2"
    and "locs \<noteq> []"
    and "\<forall>e\<in>set es2. fst e \<noteq> primaryId"
  shows "iloc_chunk d iloc_d primaryId = Inr (int (fst (last locs)), int (snd (last locs)))"
proof -
  from assms(1-3) have w: "read_width (spec_offset_size d iloc_d) = spec_offset_size d iloc_d"
    "read_width (spec_length_size d iloc_d) = spec_length_size d iloc_d"
    "read_width (spec_base_offset_size d iloc_d) = spec_base_offset_size d iloc_d"
    by (auto simp: read_width_def)
  have "fold (retain primaryId) (spec_iloc_entries d iloc_d) (- 1, - 1)
        = fold (retain primaryId) es2
            (retain primaryId (primaryId, locs) (fold (retain primaryId) es1 (- 1, - 1)))"
    by (simp add: assms(4))
  also have "\<dots> = retain primaryId (primaryId, locs) (fold (retain primaryId) es1 (- 1, - 1))"
    by (rule fold_retain_other [OF assms(6)])
  also have "\<dots> = (int (fst (last locs)), int (snd (last locs)))"
    using assms(5) by (simp add: retain_def)
  finally have "fold (retain primaryId) (spec_iloc_entries d iloc_d) (- 1, - 1)
                = (int (fst (last locs)), int (snd (last locs)))" .
  then show ?thesis
    unfolding iloc_chunk_fold w by (simp add: spec_iloc_entries_def Let_def)
qed

theorem iloc_chunk_last_extent_witness:
  "spec_offset_size iloc_three 0 \<in> {0, 4, 8}
   \<and> spec_length_size iloc_three 0 \<in> {0, 4, 8}
   \<and> spec_base_offset_size iloc_three 0 = 4
   \<and> spec_iloc_entries iloc_three 0 =
       [(2, [(1100, 10)])] @ [(1, [(272, 32), (320, 128)])] @ [(3, [(400, 40)])]
   \<and> [(272, 32), (320, 128)] \<noteq> ([] :: (nat \<times> nat) list)
   \<and> fst (3 :: nat, [(400 :: nat, 40 :: nat)]) \<noteq> 1
   \<and> iloc_chunk iloc_three 0 1 = Inr (320, 128)"
proof -
  have s: "spec_offset_size iloc_three 0 \<in> {0, 4, 8}" "spec_length_size iloc_three 0 \<in> {0, 4, 8}"
    "spec_base_offset_size iloc_three 0 \<in> {0, 4, 8}"
    by (simp_all add: spec_eval_header)
  from iloc_chunk_last_extent [OF s spec_iloc_entries_three] s spec_iloc_entries_three
  show ?thesis by (simp add: spec_eval_header)
qed

text \<open>
  C9, as the claim states it, fails for a size nibble other than 0, 4 and 8: the box
  \<open>iloc_222\<close> declares 2-byte offsets and lengths, and its one entry, of the primary
  item 1, has the extents (16, 32) and (64, 128). The code reads neither field, and the
  item locator returns (0, 0), not the last extent (64, 128).
\<close>

theorem iloc_chunk_last_extent_counterexample:
  "spec_iloc_entries iloc_222 0 = [] @ [(1, [(16, 32), (64, 128)])] @ []
   \<and> iloc_chunk iloc_222 0 1 = Inr (0, 0)
   \<and> iloc_chunk iloc_222 0 1
       \<noteq> Inr (int (fst (last [(16 :: nat, 32 :: nat), (64, 128)])),
              int (snd (last [(16 :: nat, 32 :: nat), (64, 128)])))"
  using spec_iloc_entries_222 iloc_chunk_222 by simp

subsection \<open>The decode adapter\<close>

lemma foldl_done:
  "done_flag a \<Longrightarrow>
   foldl on_callback a cbs = a\<lparr>calls := calls a @ concat (map late_calls cbs)\<rparr>"
proof (induction cbs arbitrary: a)
  case Nil
  then show ?case by simp
next
  case (Cons cb cbs)
  then show ?case by (cases cb) (simp_all add: late_calls_def)
qed

lemma foldl_fulfilled:
  "foldl on_callback a (replicate k Flush_fulfilled) = a"
  by (induction k) simp_all

lemma settle_executor:
  "settle (promise (executor thrown)) (settlement cb) = settled_by thrown [cb]"
  by (cases thrown; cases cb)
     (simp_all add: settle_def executor_def settled_by_def settlement_def completes_def)

lemma decode_run_first:
  assumes "completes cb"
  shows "decode_run thrown (replicate k Flush_fulfilled @ cb # late)
         = \<lparr>done_flag = True, calls = first_calls cb @ concat (map late_calls late),
            promise = settled_by thrown [cb]\<rparr>"
proof -
  have "on_callback (executor thrown) cb
        = \<lparr>done_flag = True, calls = first_calls cb,
           promise = settle (promise (executor thrown)) (settlement cb)\<rparr>"
    using assms
    by (cases cb) (simp_all add: executor_def first_calls_def completes_def settlement_def)
  then show ?thesis
    by (simp add: decode_run_def foldl_fulfilled foldl_done settle_executor)
qed

lemma settles_late: "settles (concat (map late_calls cbs)) = 0"
  by (induction cbs) (auto simp: settles_def late_calls_def split: callback.splits)

lemma settles_append: "settles (xs @ ys) = settles xs + settles ys"
  by (simp add: settles_def)

lemma settles_first: "completes cb \<Longrightarrow> settles (first_calls cb) = 1"
  by (cases cb) (simp_all add: settles_def first_calls_def completes_def)

lemma split_first_complete:
  assumes "\<exists>cb\<in>set cbs. completes cb"
  shows "\<exists>k cb late. cbs = replicate k Flush_fulfilled @ cb # late \<and> completes cb"
  using assms
proof (induction cbs)
  case Nil
  then show ?case by simp
next
  case (Cons c cbs)
  show ?case
  proof (cases "completes c")
    case True
    then have "c # cbs = replicate 0 Flush_fulfilled @ c # cbs \<and> completes c" by simp
    then show ?thesis by blast
  next
    case False
    then have c: "c = Flush_fulfilled" by (simp add: completes_def)
    with Cons.prems False have "\<exists>cb\<in>set cbs. completes cb" by auto
    from Cons.IH [OF this] obtain k cb late
      where "cbs = replicate k Flush_fulfilled @ cb # late" "completes cb" by blast
    then have "c # cbs = replicate (Suc k) Flush_fulfilled @ cb # late \<and> completes cb"
      using c by simp
    then show ?thesis by blast
  qed
qed

lemma none_complete:
  assumes "\<not> (\<exists>cb\<in>set cbs. completes cb)"
  shows "cbs = replicate (length cbs) Flush_fulfilled"
  using assms by (induction cbs) (auto simp: completes_def)

lemma filter_completes_fulfilled: "filter completes (replicate k Flush_fulfilled) = []"
  by (simp add: completes_def)

lemma settled_by_first:
  "completes cb \<Longrightarrow>
   settled_by thrown (replicate k Flush_fulfilled @ cb # late) = settled_by thrown [cb]"
  by (cases thrown) (simp_all add: settled_by_def filter_completes_fulfilled)

lemma settled_by_completes:
  "completes cb \<Longrightarrow> settled_by thrown [cb] \<noteq> Unsettled"
  by (cases thrown; cases cb) (simp_all add: settled_by_def settlement_def completes_def)

lemma settles_decode_run:
  "settles (calls (decode_run thrown cbs)) = (if \<exists>cb\<in>set cbs. completes cb then 1 else 0)"
proof (cases "\<exists>cb\<in>set cbs. completes cb")
  case True
  from split_first_complete [OF True] obtain k cb late
    where "cbs = replicate k Flush_fulfilled @ cb # late" "completes cb" by blast
  with True show ?thesis
    by (simp add: decode_run_first settles_append settles_first settles_late)
next
  case False
  from none_complete [OF False] have "decode_run thrown cbs = executor thrown"
    unfolding decode_run_def by (metis foldl_fulfilled)
  with False show ?thesis by (simp add: executor_def settles_def)
qed

lemma promise_decode_run:
  "promise (decode_run thrown cbs) = settled_by thrown cbs"
proof (cases "\<exists>cb\<in>set cbs. completes cb")
  case True
  from split_first_complete [OF True] obtain k cb late
    where "cbs = replicate k Flush_fulfilled @ cb # late" "completes cb" by blast
  then show ?thesis
    by (simp add: decode_run_first settled_by_first)
next
  case False
  from none_complete [OF False] have r: "decode_run thrown cbs = executor thrown"
    unfolding decode_run_def by (metis foldl_fulfilled)
  from False have "filter completes cbs = []" by (simp add: filter_empty_conv)
  then show ?thesis
    using r by (cases thrown) (simp_all add: executor_def settled_by_def)
qed

lemma settled_by_iff:
  "settled_by thrown cbs \<noteq> Unsettled \<longleftrightarrow> thrown \<noteq> None \<or> (\<exists>cb\<in>set cbs. completes cb)"
proof (cases "\<exists>cb\<in>set cbs. completes cb")
  case True
  from split_first_complete [OF True] obtain k cb late
    where "cbs = replicate k Flush_fulfilled @ cb # late" "completes cb" by blast
  with True show ?thesis
    by (simp add: settled_by_first settled_by_completes)
next
  case False
  then have "filter completes cbs = []" by (simp add: filter_empty_conv)
  with False show ?thesis
    by (cases thrown) (simp_all add: settled_by_def)
qed

lemma settled_by_stays:
  "settled_by thrown cbs \<noteq> Unsettled \<Longrightarrow> settled_by thrown (cbs @ later) = settled_by thrown cbs"
  by (cases thrown; cases "filter completes cbs") (simp_all add: settled_by_def)

text \<open>
  C5, as the code has it: the promise is settled by the first of the exception that the
  executor is left with, an output, an error and a rejected flush, and it never changes
  afterwards; so it is settled exactly once when the executor throws or the decoder
  calls back with an output, an error or a rejected flush, and it stays pending when the
  executor returns and there is no such callback. The handlers call \<open>res\<close> or \<open>rej\<close>
  at most once. The first callback with a handler runs its resolve or reject path; every
  callback after it is discarded: the frame of an output is closed and nothing else
  happens.
\<close>

theorem decode_promise_settled:
  "promise (decode_run thrown cbs) = settled_by thrown cbs
   \<and> (promise (decode_run thrown cbs) \<noteq> Unsettled \<longleftrightarrow>
        thrown \<noteq> None \<or> (\<exists>cb\<in>set cbs. completes cb))
   \<and> (promise (decode_run thrown cbs) \<noteq> Unsettled \<longrightarrow>
        promise (decode_run thrown (cbs @ later)) = promise (decode_run thrown cbs))
   \<and> settles (calls (decode_run thrown cbs)) \<le> 1
   \<and> (settles (calls (decode_run thrown cbs)) = 1 \<longleftrightarrow> (\<exists>cb\<in>set cbs. completes cb))
   \<and> (completes cb \<longrightarrow>
        decode_run thrown (replicate k Flush_fulfilled @ cb # late)
          = \<lparr>done_flag = True, calls = first_calls cb @ concat (map late_calls late),
             promise = settled_by thrown [cb]\<rparr>)"
  by (simp add: promise_decode_run settled_by_iff settled_by_stays settles_decode_run
      decode_run_first)

theorem decode_promise_settled_witness:
  "completes (Output (1::nat) :: (nat, string) callback)
   \<and> decode_run None ([Flush_fulfilled] @ Output (1::nat)
                         # [Output 2, Error ''late'', Flush_rejected ''closed''])
     = \<lparr>done_flag = True,
        calls = [DrawImage 1, Frame_close 1, Dec_close, Res 1, Frame_close 2],
        promise = Fulfilled 1\<rparr>
   \<and> promise (decode_run (Some ''TypeError'') ([] :: (nat, string) callback list))
     = Rejected ''TypeError''
   \<and> promise (decode_run (Some ''TypeError'') ([] @ [Error ''closed'' :: (nat, string) callback]))
     = Rejected ''TypeError''"
proof -
  have c: "completes (Output (1::nat) :: (nat, string) callback)"
    by (simp add: completes_def)
  have s: "settled_by None [Output (1::nat) :: (nat, string) callback] = Fulfilled 1"
    "settled_by (Some ''TypeError'') ([] :: (nat, string) callback list) = Rejected ''TypeError''"
    by (simp_all add: settled_by_def settlement_def completes_def)
  from decode_promise_settled
    [of None "[Flush_fulfilled, Output (1::nat), Output 2, Error ''late'', Flush_rejected ''closed'']"
        "[]" "Output (1::nat)" 1 "[Output (2::nat), Error ''late'', Flush_rejected ''closed'']"]
    decode_promise_settled
    [of "Some ''TypeError''" "[] :: (nat, string) callback list"
        "[Error ''closed'' :: (nat, string) callback]" "Output (1::nat)" 0 "[]"] c s
  show ?thesis
    by (simp add: first_calls_def late_calls_def)
qed

text \<open>
  C5, as the claim states it, fails: when the executor returns, the promise of \<open>flush\<close>
  is fulfilled and the decoder has produced neither an output nor an error, neither
  \<open>res\<close> nor \<open>rej\<close> is called and the promise stays pending, so the adapter does not
  resolve or fail exactly once.
\<close>

theorem decode_settles_once_counterexample:
  "promise (decode_run (None :: string option) [Flush_fulfilled :: (nat, string) callback])
     = Unsettled
   \<and> settles (calls (decode_run (None :: string option)
                      [Flush_fulfilled :: (nat, string) callback])) = 0"
  by (simp add: decode_run_def executor_def settles_def)

subsection \<open>The tier chain\<close>

lemma isHEIC_upper_case: "isHEIC ''IMG_0001.HEIC'' ''''"
  by (simp add: isHEIC_def ends_with_ci_def lower_def suffix_def char_of_def bit_Suc_0_iff)

lemma isHEIC_png: "\<not> isHEIC ''a.png'' ''image/png''"
  by (simp add: isHEIC_def ends_with_ci_def lower_def suffix_Cons)

lemma img_fail_other: "imgTagDecode ev \<noteq> Threw ''HEIC_UNSUPPORTED''"
  by (cases ev) (simp_all add: imgTagDecode_def)

lemma tiers_started:
  "fst (readImageToDataURL h name mime) = started h (applicable h name mime)"
  by (auto simp: readImageToDataURL_def applicable_def tier_outcome_def failed_def
      split: outcome.splits)

lemma tiers_prefix_heic:
  "isHEIC name mime \<Longrightarrow>
   prefix (fst (readImageToDataURL h name mime))
     [NativeBitmapDecode, TagBasedDecode, HEVCManualDecode]"
  by (auto simp: readImageToDataURL_def split: outcome.splits)

lemma tiers_prefix_other:
  "\<not> isHEIC name mime \<Longrightarrow>
   prefix (fst (readImageToDataURL h name mime)) [NativeBitmapDecode, TagBasedDecode]"
  by (auto simp: readImageToDataURL_def split: outcome.splits)

lemma tiers_skipped:
  "\<not> VideoDecoder_defined h \<Longrightarrow> HEVCManualDecode \<notin> set (fst (readImageToDataURL h name mime))"
  by (auto simp: readImageToDataURL_def split: outcome.splits)

lemma tiers_unsupported:
  "snd (readImageToDataURL h name mime) = Threw ''HEIC_UNSUPPORTED'' \<longleftrightarrow>
   isHEIC name mime \<and> (\<forall>t\<in>set (applicable h name mime). failed (tier_outcome h t))"
  using img_fail_other [of "img_fires h"]
  by (auto simp: readImageToDataURL_def applicable_def tier_outcome_def failed_def
      split: outcome.splits)

lemma tiers_result:
  "snd (readImageToDataURL h name mime) =
     (if isHEIC name mime \<and> (\<forall>t\<in>set (applicable h name mime). failed (tier_outcome h t))
      then Threw ''HEIC_UNSUPPORTED''
      else tier_outcome h (last (started h (applicable h name mime))))"
  by (auto simp: readImageToDataURL_def applicable_def tier_outcome_def failed_def
      split: outcome.splits)

text \<open>
  C4: the tiers that \<open>readImageToDataURL\<close> starts are the applicable tiers in their
  order, each after the failure of the one before, up to the first that does not fail:
  NativeBitmapDecode, TagBasedDecode, HEVCManualDecode for a file that is HEIC by its
  extension or its media type, the first two for any other file. HEVCManualDecode is
  not started when \<open>VideoDecoder\<close> is undefined. The call throws \<open>HEIC_UNSUPPORTED\<close>
  exactly when the file is HEIC and every applicable tier has failed, which no error of
  a tier is; in every other case the outcome of the call is that of the last tier
  started.
\<close>

theorem tier_chain:
  "fst (readImageToDataURL h name mime) = started h (applicable h name mime)
   \<and> (isHEIC name mime \<longrightarrow>
        prefix (fst (readImageToDataURL h name mime))
          [NativeBitmapDecode, TagBasedDecode, HEVCManualDecode])
   \<and> (\<not> isHEIC name mime \<longrightarrow>
        prefix (fst (readImageToDataURL h name mime)) [NativeBitmapDecode, TagBasedDecode])
   \<and> (\<not> VideoDecoder_defined h \<longrightarrow>
        HEVCManualDecode \<notin> set (fst (readImageToDataURL h name mime)))
   \<and> (snd (readImageToDataURL h name mime) = Threw ''HEIC_UNSUPPORTED'' \<longleftrightarrow>
        isHEIC name mime \<and> (\<forall>t\<in>set (applicable h name mime). failed (tier_outcome h t)))
   \<and> snd (readImageToDataURL h name mime) =
       (if isHEIC name mime \<and> (\<forall>t\<in>set (applicable h name mime). failed (tier_outcome h t))
        then Threw ''HEIC_UNSUPPORTED''
        else tier_outcome h (last (started h (applicable h name mime))))"
  using tiers_started tiers_prefix_heic tiers_prefix_other tiers_skipped tiers_unsupported
    tiers_result
  by blast

theorem tier_chain_witness:
  "isHEIC ''IMG_0001.HEIC'' '''' \<and> \<not> VideoDecoder_defined failing_host
   \<and> readImageToDataURL failing_host ''IMG_0001.HEIC'' ''''
     = ([NativeBitmapDecode, TagBasedDecode], Threw ''HEIC_UNSUPPORTED'')
   \<and> \<not> isHEIC ''a.png'' ''image/png''
   \<and> readImageToDataURL failing_host ''a.png'' ''image/png''
     = ([NativeBitmapDecode, TagBasedDecode], Threw ''img fail'')
   \<and> readImageToDataURL decoding_host ''IMG_0001.HEIC'' ''''
     = ([NativeBitmapDecode, TagBasedDecode, HEVCManualDecode],
        Returned ''data:image/jpeg;base64,AA'')"
proof -
  have a: "applicable failing_host ''IMG_0001.HEIC'' '''' = [NativeBitmapDecode, TagBasedDecode]"
    "applicable failing_host ''a.png'' ''image/png'' = [NativeBitmapDecode, TagBasedDecode]"
    "applicable decoding_host ''IMG_0001.HEIC'' ''''
       = [NativeBitmapDecode, TagBasedDecode, HEVCManualDecode]"
    by (simp_all add: applicable_def isHEIC_upper_case isHEIC_png failing_host_def
        decoding_host_def)
  have o: "tier_outcome failing_host NativeBitmapDecode = Threw ''InvalidStateError''"
    "tier_outcome failing_host TagBasedDecode = Threw ''img fail''"
    "tier_outcome decoding_host NativeBitmapDecode = Threw ''InvalidStateError''"
    "tier_outcome decoding_host TagBasedDecode = Threw ''img fail''"
    "tier_outcome decoding_host HEVCManualDecode = Returned ''data:image/jpeg;base64,AA''"
    by (simp_all add: tier_outcome_def failing_host_def decoding_host_def imgTagDecode_def)
  have v: "\<not> VideoDecoder_defined failing_host"
    by (simp add: failing_host_def)
  from tier_chain [of failing_host "''IMG_0001.HEIC''" "''''"]
    tier_chain [of failing_host "''a.png''" "''image/png''"]
    tier_chain [of decoding_host "''IMG_0001.HEIC''" "''''"]
  show ?thesis
    using isHEIC_upper_case isHEIC_png v
    by (simp add: a o failed_def prod_eq_iff)
qed

end
